theory Spec2Isabelle
  imports Complex_Main "HOL-Library.Word"
begin

unbundle bit_operations_syntax

section \<open>Machine types and constants of ngx_event_quic.c\<close>

type_synonym u8 = "8 word"
type_synonym u16 = "16 word"
type_synonym u32 = "32 word"
type_synonym u64 = "64 word"

text \<open>\<^verbatim>\<open>#define NGX_QUIC_UNSET_PN (uint64_t) -1\<close>\<close>

definition NGX_QUIC_UNSET_PN :: u64 where
  "NGX_QUIC_UNSET_PN = - 1"

text \<open>\<^verbatim>\<open>#define NGX_QUIC_MAX_BUFFERED 65535\<close>\<close>

definition NGX_QUIC_MAX_BUFFERED :: u64 where
  "NGX_QUIC_MAX_BUFFERED = 65535"

definition NGX_QUIC_MIN_PKT_LEN :: nat where
  "NGX_QUIC_MIN_PKT_LEN = 21"

definition NGX_QUIC_MIN_SR_PACKET :: nat where
  "NGX_QUIC_MIN_SR_PACKET = 43"

definition NGX_QUIC_MAX_SR_PACKET :: nat where
  "NGX_QUIC_MAX_SR_PACKET = 1200"

definition NGX_QUIC_MAX_ACK_GAP :: u64 where
  "NGX_QUIC_MAX_ACK_GAP = 2"

text \<open>
  \<^verbatim>\<open>ngx_int_t\<close> return codes of nginx (\<^verbatim>\<open>NGX_OK\<close> 0, \<^verbatim>\<open>NGX_ERROR\<close> -1,
  \<^verbatim>\<open>NGX_DONE\<close> -4, \<^verbatim>\<open>NGX_DECLINED\<close> -5), as far as the modelled functions return them.
\<close>

datatype ngx_int_t = NGX_OK | NGX_ERROR | NGX_DONE | NGX_DECLINED

text \<open>\<^verbatim>\<open>enum ssl_encryption_level_t\<close> of the TLS library.\<close>

datatype ssl_encryption_level_t =
    ssl_encryption_initial
  | ssl_encryption_early_data
  | ssl_encryption_handshake
  | ssl_encryption_application

text \<open>
  Transport error codes and frame type codes. The header that defines them is not part of
  the file; the values are the ones of the wire protocol, as the error table of the
  specification lists them.
\<close>

definition NGX_QUIC_ERR_STREAM_LIMIT_ERROR :: nat where
  "NGX_QUIC_ERR_STREAM_LIMIT_ERROR = 0x4"

definition NGX_QUIC_ERR_STREAM_STATE_ERROR :: nat where
  "NGX_QUIC_ERR_STREAM_STATE_ERROR = 0x5"

definition NGX_QUIC_ERR_CONNECTION_ID_LIMIT_ERROR :: nat where
  "NGX_QUIC_ERR_CONNECTION_ID_LIMIT_ERROR = 0x9"

definition NGX_QUIC_ERR_PROTOCOL_VIOLATION :: nat where
  "NGX_QUIC_ERR_PROTOCOL_VIOLATION = 0xA"

definition NGX_QUIC_ERR_CRYPTO_BUFFER_EXCEEDED :: nat where
  "NGX_QUIC_ERR_CRYPTO_BUFFER_EXCEEDED = 0xD"

definition NGX_QUIC_FT_ACK :: nat where
  "NGX_QUIC_FT_ACK = 0x02"

definition NGX_QUIC_FT_ACK_ECN :: nat where
  "NGX_QUIC_FT_ACK_ECN = 0x03"

definition NGX_QUIC_FT_CRYPTO :: nat where
  "NGX_QUIC_FT_CRYPTO = 0x06"

definition NGX_QUIC_FT_STREAM0 :: nat where
  "NGX_QUIC_FT_STREAM0 = 0x08"

definition NGX_QUIC_FT_STREAM7 :: nat where
  "NGX_QUIC_FT_STREAM7 = 0x0F"

definition NGX_QUIC_FT_RETIRE_CONNECTION_ID :: nat where
  "NGX_QUIC_FT_RETIRE_CONNECTION_ID = 0x19"

section \<open>Data model\<close>

text \<open>
  \<^verbatim>\<open>ngx_quic_ack_range_t\<close>: one entry of the gap/range table. The field \<^verbatim>\<open>range\<close> is
  called \<open>range'\<close> here.
\<close>

record ngx_quic_ack_range_t =
  gap :: u64
  range' :: u64

text \<open>
  The payload union \<^verbatim>\<open>u\<close> of a frame, for the frame kinds the modelled functions build
  or inspect. An ACK frame carries its additional ranges as the (gap, range) pairs that
  \<^verbatim>\<open>ngx_quic_create_ack_range\<close> serialises one after the other into the frame's data.
\<close>

datatype frame_u =
    U_NONE
  | U_ACK (ack_largest: u64) (ack_delay: u64) (ack_range_count: nat) (ack_first_range: u64)
      (ack_ranges: "ngx_quic_ack_range_t list")
  | U_ORD (ord_offset: u64) (ord_length: u64) (ord_data: "u8 list")
  | U_STREAM (stream_id: u64) (stream_offset: u64) (stream_length: u64)
  | U_RETIRE_CID (sequence_number: u64)

text \<open>
  \<^verbatim>\<open>ngx_quic_frame_t\<close>; its fields carry the prefix \<open>f_\<close>. The field \<open>f_data\<close> tells
  whether \<^verbatim>\<open>frame->data\<close> points to a buffer of the frame's own.
\<close>

record ngx_quic_frame_t =
  f_type :: nat
  f_level :: ssl_encryption_level_t
  f_pnum :: u64
  f_plen :: u64
  f_last :: u64
  f_need_ack :: bool
  f_data :: bool
  f_u :: frame_u

text \<open>What \<^verbatim>\<open>ngx_memzero\<close> leaves in a frame taken from the allocator.\<close>

definition zero_frame :: ngx_quic_frame_t where
  "zero_frame = \<lparr>f_type = 0, f_level = ssl_encryption_initial, f_pnum = 0, f_plen = 0,
     f_last = 0, f_need_ack = False, f_data = False, f_u = U_NONE\<rparr>"

text \<open>\<^verbatim>\<open>ngx_quic_header_t\<close>; its fields carry the prefix \<open>pkt_\<close>.\<close>

record ngx_quic_header_t =
  pkt_flags :: u8
  pkt_number :: u64
  pkt_num_len :: nat
  pkt_trunc :: u32
  pkt_level :: ssl_encryption_level_t
  pkt_pn :: u64
  pkt_need_ack :: bool
  pkt_received :: u64
  pkt_len :: nat
  pkt_dcid :: "u8 list"

text \<open>
  \<^verbatim>\<open>ngx_quic_send_ctx_t\<close>. The array \<^verbatim>\<open>ranges\<close> together with its fill count
  \<^verbatim>\<open>nranges\<close> is the list \<open>ranges\<close>: the code reads and moves only the first
  \<^verbatim>\<open>nranges\<close> entries.
\<close>

record ngx_quic_send_ctx_t =
  level :: ssl_encryption_level_t
  pnum :: u64
  largest_ack :: u64
  largest_pn :: u64
  frames :: "ngx_quic_frame_t list"
  sent :: "ngx_quic_frame_t list"
  pending_ack :: u64
  largest_range :: u64
  first_range :: u64
  largest_received :: u64
  ack_delay_start :: u64
  ranges :: "ngx_quic_ack_range_t list"
  send_ack :: u64

abbreviation nranges :: "ngx_quic_send_ctx_t \<Rightarrow> nat" where
  "nranges ctx \<equiv> length (ranges ctx)"

text \<open>\<^verbatim>\<open>ngx_quic_frames_stream_t\<close>, the ordered reassembly buffer.\<close>

record ngx_quic_frames_stream_t =
  fs_received :: u64
  fs_frames :: "ngx_quic_frame_t list"
  fs_total :: u64

text \<open>\<^verbatim>\<open>ngx_quic_congestion_t\<close>.\<close>

record ngx_quic_congestion_t =
  in_flight :: u64
  window :: u64
  ssthresh :: u64
  recovery_start :: u64

text \<open>The transport parameters (\<^verbatim>\<open>ngx_quic_tp_t\<close>) that the modelled functions read.\<close>

record ngx_quic_tp_t =
  max_idle_timeout :: u64
  max_udp_payload_size :: u64
  max_ack_delay :: u64
  ack_delay_exponent :: u64
  active_connection_id_limit :: u64
  initial_max_data :: u64
  initial_max_streams_bidi :: u64
  initial_max_streams_uni :: u64
  initial_max_stream_data_bidi_local :: u64
  initial_max_stream_data_bidi_remote :: u64
  initial_max_stream_data_uni :: u64

text \<open>
  \<^verbatim>\<open>ngx_quic_stream_t\<close> with the parts of its connection object \<^verbatim>\<open>sn->c\<close> that the
  connection engine touches: the sent counter and the write event.
\<close>

record ngx_quic_stream_t =
  qs_id :: u64
  qs_acked :: u64
  qs_send_max_data :: u64
  qs_sent :: u64
  qs_rcvbuf_size :: u64
  qs_wev_active :: bool
  qs_wev_ready :: bool
  qs_wev_posted :: bool

text \<open>
  \<^verbatim>\<open>ngx_quic_streams_t\<close>; the red-black tree of streams is the list of its nodes. The
  counters that share a name with a stream field carry the prefix \<open>ss_\<close>.
\<close>

record ngx_quic_streams_t =
  tree :: "ngx_quic_stream_t list"
  ss_received :: u64
  ss_sent :: u64
  ss_recv_max_data :: u64
  ss_send_max_data :: u64
  server_max_streams_uni :: u64
  server_max_streams_bidi :: u64
  server_streams_uni :: u64
  server_streams_bidi :: u64
  client_max_streams_uni :: u64
  client_max_streams_bidi :: u64
  client_streams_uni :: u64
  client_streams_bidi :: u64

text \<open>\<^verbatim>\<open>ngx_quic_client_id_t\<close>; \<^verbatim>\<open>len\<close> is the length of \<open>cid_id\<close>.\<close>

record ngx_quic_client_id_t =
  cid_seqnum :: u64
  cid_id :: "u8 list"
  cid_sr_token :: "u8 list"

text \<open>
  \<^verbatim>\<open>ngx_quic_connection_t\<close>. The three send contexts are indexed 0, 1, 2. The free lists
  hold zeroed objects, so only their sizes are kept. Two fields stand for the environment:
  \<open>mem\<close> is the number of requests the system allocator will still satisfy, and
  \<open>accepted\<close> records the stream ids handed to the application's listening handler.
\<close>

record ngx_quic_connection_t =
  scid :: "u8 list"
  client_ids :: "ngx_quic_client_id_t list"
  free_client_ids :: nat
  nclient_ids :: u64
  max_retired_seqnum :: u64
  curr_seqnum :: u64
  tp :: ngx_quic_tp_t
  ctp :: ngx_quic_tp_t
  send_ctx :: "nat \<Rightarrow> ngx_quic_send_ctx_t"
  crypto :: "ssl_encryption_level_t \<Rightarrow> ngx_quic_frames_stream_t"
  push_posted :: bool
  push_timer_set :: bool
  free_frames :: nat
  pto_count :: u64
  streams :: ngx_quic_streams_t
  congestion :: ngx_quic_congestion_t
  error :: nat
  error_ftype :: nat
  error_reason :: string
  closing :: bool
  mem :: nat
  accepted :: "u64 list"

text \<open>\<^verbatim>\<open>ngx_quic_get_send_ctx\<close>: the index of the packet-number space of a level.\<close>

definition ngx_quic_get_send_ctx :: "ssl_encryption_level_t \<Rightarrow> nat" where
  "ngx_quic_get_send_ctx lvl =
     (if lvl = ssl_encryption_initial then 0
      else if lvl = ssl_encryption_handshake then 1 else 2)"

text \<open>A write through the pointer \<^verbatim>\<open>ctx = &qc->send_ctx[k]\<close>.\<close>

definition ctx_update ::
  "nat \<Rightarrow> (ngx_quic_send_ctx_t \<Rightarrow> ngx_quic_send_ctx_t) \<Rightarrow> ngx_quic_connection_t
   \<Rightarrow> ngx_quic_connection_t" where
  "ctx_update k f qc = qc\<lparr>send_ctx := (send_ctx qc)(k := f (send_ctx qc k))\<rparr>"

section \<open>A new connection\<close>

text \<open>
  The state that \<^verbatim>\<open>ngx_quic_new_connection\<close> builds when no allocation fails, for the
  fields of the model: zeroed memory, the unset packet numbers, the levels of the three send
  contexts, the limits copied from the local transport parameters \<open>conf_tp\<close>, the initial
  congestion window, and the peer's source connection id as client id number 0. The
  defaults \<open>peer_tp\<close> for the peer's parameters, the clock \<open>now\<close> and the allocator
  budget \<open>m\<close> are given.
\<close>

definition ngx_quic_new_send_ctx :: "ssl_encryption_level_t \<Rightarrow> ngx_quic_send_ctx_t" where
  "ngx_quic_new_send_ctx lvl =
     \<lparr>level = lvl, pnum = 0, largest_ack = NGX_QUIC_UNSET_PN,
      largest_pn = NGX_QUIC_UNSET_PN, frames = [], sent = [],
      pending_ack = NGX_QUIC_UNSET_PN, largest_range = NGX_QUIC_UNSET_PN, first_range = 0,
      largest_received = 0, ack_delay_start = 0, ranges = [], send_ack = 0\<rparr>"

definition ngx_quic_new_connection ::
  "ngx_quic_tp_t \<Rightarrow> ngx_quic_tp_t \<Rightarrow> u64 \<Rightarrow> u8 list \<Rightarrow> nat \<Rightarrow> ngx_quic_connection_t" where
  "ngx_quic_new_connection conf_tp peer_tp now pkt_scid m =
     \<lparr>scid = pkt_scid,
      client_ids = [\<lparr>cid_seqnum = 0, cid_id = pkt_scid, cid_sr_token = replicate 16 0\<rparr>],
      free_client_ids = 0, nclient_ids = 1, max_retired_seqnum = 0, curr_seqnum = 0,
      tp = conf_tp, ctp = peer_tp,
      send_ctx = (\<lambda>i. ngx_quic_new_send_ctx
                         (if i = 0 then ssl_encryption_initial
                          else if i = 1 then ssl_encryption_handshake
                          else ssl_encryption_application)),
      crypto = (\<lambda>lvl. \<lparr>fs_received = 0, fs_frames = [], fs_total = 0\<rparr>),
      push_posted = False, push_timer_set = False, free_frames = 0, pto_count = 0,
      streams = \<lparr>tree = [], ss_received = 0, ss_sent = 0,
                  ss_recv_max_data = initial_max_data conf_tp, ss_send_max_data = 0,
                  server_max_streams_uni = 0, server_max_streams_bidi = 0,
                  server_streams_uni = 0, server_streams_bidi = 0,
                  client_max_streams_uni = initial_max_streams_uni conf_tp,
                  client_max_streams_bidi = initial_max_streams_bidi conf_tp,
                  client_streams_uni = 0, client_streams_bidi = 0\<rparr>,
      congestion = \<lparr>in_flight = 0,
                     window = min (10 * max_udp_payload_size conf_tp)
                                (max (2 * max_udp_payload_size conf_tp) 14720),
                     ssthresh = - 1, recovery_start = now\<rparr>,
      error = 0, error_ftype = 0, error_reason = [], closing = False,
      mem = m, accepted = []\<rparr>"

section \<open>Frame allocation and queueing\<close>

text \<open>
  The system allocator behind \<^verbatim>\<open>ngx_alloc\<close> and \<^verbatim>\<open>ngx_pcalloc\<close>: a request succeeds
  while the budget \<open>mem\<close> lasts.
\<close>

definition ngx_alloc :: "ngx_quic_connection_t \<Rightarrow> bool \<times> ngx_quic_connection_t" where
  "ngx_alloc qc = (if mem qc = 0 then (False, qc) else (True, qc\<lparr>mem := mem qc - 1\<rparr>))"

text \<open>
  \<^verbatim>\<open>ngx_quic_alloc_frame\<close>: a data buffer when the size \<open>sz\<close> is not zero, then a frame from the
  free list or from the pool. The result is \<open>False\<close> for \<^verbatim>\<open>NULL\<close>; a frame that is
  returned is \<open>zero_frame\<close>.
\<close>

definition ngx_quic_alloc_frame ::
  "ngx_quic_connection_t \<Rightarrow> nat \<Rightarrow> bool \<times> ngx_quic_connection_t" where
  "ngx_quic_alloc_frame qc sz =
     (case (if sz \<noteq> 0 then ngx_alloc qc else (True, qc)) of
        (False, qc1) \<Rightarrow> (False, qc1)
      | (True, qc1) \<Rightarrow>
          if free_frames qc1 \<noteq> 0 then (True, qc1\<lparr>free_frames := free_frames qc1 - 1\<rparr>)
          else (case ngx_alloc qc1 of
                  (False, qc2) \<Rightarrow> (False, if sz \<noteq> 0 then qc2\<lparr>mem := mem qc2 + 1\<rparr> else qc2)
                | (True, qc2) \<Rightarrow> (True, qc2)))"

text \<open>
  \<^verbatim>\<open>ngx_quic_queue_frame\<close>: the frame goes to the tail of the pending queue of its
  level, and the push event is posted unless the connection is closing.
\<close>

definition ngx_quic_queue_frame ::
  "ngx_quic_connection_t \<Rightarrow> ngx_quic_frame_t \<Rightarrow> ngx_quic_connection_t" where
  "ngx_quic_queue_frame qc frame =
     (let qc1 = ctx_update (ngx_quic_get_send_ctx (f_level frame))
                  (\<lambda>ctx. ctx\<lparr>frames := frames ctx @ [frame]\<rparr>) qc
      in if closing qc1 then qc1 else qc1\<lparr>push_posted := True\<rparr>)"

section \<open>Packet number truncation: ngx_quic_set_packet_number\<close>

definition ngx_quic_set_packet_number ::
  "ngx_quic_header_t \<Rightarrow> ngx_quic_send_ctx_t \<Rightarrow> ngx_quic_header_t" where
  "ngx_quic_set_packet_number pkt ctx =
     (let delta = pnum ctx - largest_ack ctx;
          pkt = pkt\<lparr>pkt_number := pnum ctx\<rparr>
      in if delta \<le> 0x7F then
           pkt\<lparr>pkt_num_len := 1, pkt_trunc := ucast (pnum ctx AND 0xff)\<rparr>
         else if delta \<le> 0x7FFF then
           pkt\<lparr>pkt_num_len := 2, pkt_flags := pkt_flags pkt OR 0x1,
               pkt_trunc := ucast (pnum ctx AND 0xffff)\<rparr>
         else if delta \<le> 0x7FFFFF then
           pkt\<lparr>pkt_num_len := 3, pkt_flags := pkt_flags pkt OR 0x2,
               pkt_trunc := ucast (pnum ctx AND 0xffffff)\<rparr>
         else
           pkt\<lparr>pkt_num_len := 4, pkt_flags := pkt_flags pkt OR 0x3,
               pkt_trunc := ucast (pnum ctx AND 0xffffffff)\<rparr>)"

text \<open>The length that the formula of the specification gives, in its words.\<close>

definition spec_num_len :: "nat \<Rightarrow> int" where
  "spec_num_len delta = max 1 \<lceil>log 2 (real delta + 1) / 8\<rceil>"

text \<open>
  The length that the thresholds of the code amount to: one more bit than the delta
  needs, rounded up to whole bytes, between one and four bytes.
\<close>

definition code_num_len :: "nat \<Rightarrow> int" where
  "code_num_len delta = min 4 (max 1 \<lceil>(log 2 (real delta + 1) + 1) / 8\<rceil>)"

section \<open>The ACK accumulator: ngx_quic_ack_packet\<close>

text \<open>
  Modelled from the spec: the size of a variable-length integer (1, 2, 4 or 8 bytes, keyed
  by the magnitude of the value), which \<^verbatim>\<open>ngx_quic_create_ack_range\<close> of the transport
  codec adds up for a gap and a range. That function is not part of the file.
\<close>

definition ngx_quic_varint_len :: "u64 \<Rightarrow> nat" where
  "ngx_quic_varint_len v =
     (if v < 2 ^ 6 then 1 else if v < 2 ^ 14 then 2 else if v < 2 ^ 30 then 4 else 8)"

definition ngx_quic_create_ack_range :: "ngx_quic_ack_range_t \<Rightarrow> nat" where
  "ngx_quic_create_ack_range r = ngx_quic_varint_len (gap r) + ngx_quic_varint_len (range' r)"

text \<open>
  \<^verbatim>\<open>ngx_quic_send_ack\<close> for the context \<open>k\<close>; \<open>now\<close> is \<^verbatim>\<open>ngx_current_msec\<close>. The
  frame describes the whole accumulator and is queued.
\<close>

definition ngx_quic_send_ack ::
  "u64 \<Rightarrow> nat \<Rightarrow> ngx_quic_connection_t \<Rightarrow> ngx_int_t \<times> ngx_quic_connection_t" where
  "ngx_quic_send_ack now k qc =
     (let ctx = send_ctx qc k;
          ack_delay =
            (if level ctx = ssl_encryption_application
             then drop_bit (unat (ack_delay_exponent (ctp qc)))
                    ((now - largest_received ctx) * 1000)
             else 0);
          ranges_len = sum_list (map ngx_quic_create_ack_range (ranges ctx))
      in case ngx_quic_alloc_frame qc ranges_len of
           (False, qc1) \<Rightarrow> (NGX_ERROR, qc1)
         | (True, qc1) \<Rightarrow>
             (let frame = zero_frame\<lparr>f_level := level ctx, f_type := NGX_QUIC_FT_ACK,
                    f_u := U_ACK (largest_range ctx) ack_delay (nranges ctx)
                             (first_range ctx) (ranges ctx)\<rparr>
              in (NGX_OK, ngx_quic_queue_frame qc1 frame)))"

text \<open>
  \<^verbatim>\<open>ngx_quic_send_ack_range\<close>: the frame for the single range from \<open>smallest\<close> to
  \<open>largest\<close> is allocated and filled in. The function returns without passing the frame
  to \<^verbatim>\<open>ngx_quic_queue_frame\<close>, so the frame reaches no queue.
\<close>

definition ngx_quic_send_ack_range ::
  "nat \<Rightarrow> ngx_quic_connection_t \<Rightarrow> u64 \<Rightarrow> u64 \<Rightarrow> ngx_int_t \<times> ngx_quic_connection_t" where
  "ngx_quic_send_ack_range k qc smallest largest =
     (case ngx_quic_alloc_frame qc 0 of
        (False, qc1) \<Rightarrow> (NGX_ERROR, qc1)
      | (True, qc1) \<Rightarrow>
          (let frame = zero_frame\<lparr>f_level := level (send_ctx qc1 k), f_type := NGX_QUIC_FT_ACK,
                 f_u := U_ACK largest 0 0 (largest - smallest) []\<rparr>
           in (NGX_OK, qc1)))"

text \<open>
  The block that the function runs, in two places, before it inserts a range into a table
  that may be full (\<open>N\<close> is \<^verbatim>\<open>NGX_QUIC_MAX_RANGES\<close>, whose definition is not part of
  the file): the current ACK frame is sent if an ack-eliciting packet was pending before
  this packet, and the pending mark is cleared unless this packet set it.
\<close>

definition ngx_quic_ack_flush ::
  "nat \<Rightarrow> u64 \<Rightarrow> ngx_quic_header_t \<Rightarrow> u64 \<Rightarrow> nat \<Rightarrow> ngx_quic_connection_t
   \<Rightarrow> ngx_int_t \<times> ngx_quic_connection_t" where
  "ngx_quic_ack_flush N now pkt prev_pending k qc =
     (if nranges (send_ctx qc k) = N then
        (case (if prev_pending \<noteq> NGX_QUIC_UNSET_PN then ngx_quic_send_ack now k qc
               else (NGX_OK, qc)) of
           (NGX_OK, qc1) \<Rightarrow>
             (NGX_OK,
              if prev_pending = pending_ack (send_ctx qc1 k) \<or> \<not> pkt_need_ack pkt
              then ctx_update k (\<lambda>ctx. ctx\<lparr>pending_ack := NGX_QUIC_UNSET_PN\<rparr>) qc1
              else qc1)
         | (rc, qc1) \<Rightarrow> (NGX_ERROR, qc1))
      else (NGX_OK, qc))"

text \<open>
  The label \<^verbatim>\<open>insert\<close>: the count grows unless the table is full, the entries from
  index \<open>i\<close> on move up by one (the last one is lost when the table was full), and the new
  entry is written at index \<open>i\<close>.
\<close>

definition ngx_quic_ack_insert ::
  "nat \<Rightarrow> nat \<Rightarrow> u64 \<Rightarrow> u64 \<Rightarrow> ngx_quic_send_ctx_t \<Rightarrow> ngx_quic_send_ctx_t" where
  "ngx_quic_ack_insert N i g r ctx =
     (let n = (if nranges ctx < N then nranges ctx + 1 else nranges ctx)
      in ctx\<lparr>ranges := take n (take i (ranges ctx) @ \<lparr>gap = g, range' = r\<rparr>
                               # drop i (ranges ctx))\<rparr>)"

text \<open>
  The range above the gap of entry \<open>i\<close> grows by \<open>x\<close>: that range is the first range
  when \<open>i\<close> is 0 and the entry \<open>i - 1\<close> otherwise. The code has this choice in three
  places.
\<close>

definition ngx_quic_ack_grow_prev ::
  "nat \<Rightarrow> u64 \<Rightarrow> ngx_quic_send_ctx_t \<Rightarrow> ngx_quic_send_ctx_t" where
  "ngx_quic_ack_grow_prev i x ctx =
     (if i = 0 then ctx\<lparr>first_range := first_range ctx + x\<rparr>
      else ctx\<lparr>ranges := (ranges ctx)
             [i - 1 := (ranges ctx ! (i - 1))\<lparr>range' := range' (ranges ctx ! (i - 1)) + x\<rparr>]\<rparr>)"

text \<open>
  The body of the loop for a packet number inside the gap from \<open>gs\<close> to \<open>ge\<close> that
  precedes the range \<open>i\<close>.
\<close>

definition ngx_quic_ack_gap ::
  "nat \<Rightarrow> u64 \<Rightarrow> ngx_quic_header_t \<Rightarrow> u64 \<Rightarrow> nat \<Rightarrow> ngx_quic_connection_t \<Rightarrow> nat
   \<Rightarrow> u64 \<Rightarrow> u64 \<Rightarrow> ngx_int_t \<times> ngx_quic_connection_t" where
  "ngx_quic_ack_gap N now pkt prev_pending k qc i gs ge =
     (let r = ranges (send_ctx qc k) ! i; pn = pkt_pn pkt
      in if gs = ge then
           (NGX_OK,
            ctx_update k
              (\<lambda>ctx. let ctx1 = ngx_quic_ack_grow_prev i (range' r + 2) ctx
                     in ctx1\<lparr>ranges := take i (ranges ctx1) @ drop (i + 1) (ranges ctx1)\<rparr>)
              qc)
         else if pn = gs then
           (NGX_OK,
            ctx_update k
              (\<lambda>ctx. ctx\<lparr>ranges := (ranges ctx)
                        [i := r\<lparr>gap := gap r - 1, range' := range' r + 1\<rparr>]\<rparr>)
              qc)
         else if pn = ge then
           (NGX_OK,
            ctx_update k
              (\<lambda>ctx. ngx_quic_ack_grow_prev i 1
                       (ctx\<lparr>ranges := (ranges ctx)[i := r\<lparr>gap := gap r - 1\<rparr>]\<rparr>))
              qc)
         else
           (case ngx_quic_ack_flush N now pkt prev_pending k qc of
              (NGX_OK, qc1) \<Rightarrow>
                (let qc2 = ctx_update k
                             (\<lambda>ctx. ctx\<lparr>ranges := (ranges ctx)
                                       [i := (ranges ctx ! i)\<lparr>gap := pn - gs - 1\<rparr>]\<rparr>)
                             qc1
                 in (NGX_OK, ctx_update k (ngx_quic_ack_insert N i (ge - pn - 1) 0) qc2))
            | (rc, qc1) \<Rightarrow> (NGX_ERROR, qc1)))"

text \<open>
  The code after the loop: the packet number is below every tracked range, \<open>i\<close> is the
  number of ranges and \<open>smallest\<close> the lower end of the oldest range.
\<close>

definition ngx_quic_ack_tail ::
  "nat \<Rightarrow> ngx_quic_header_t \<Rightarrow> nat \<Rightarrow> ngx_quic_connection_t \<Rightarrow> nat \<Rightarrow> u64
   \<Rightarrow> ngx_int_t \<times> ngx_quic_connection_t" where
  "ngx_quic_ack_tail N pkt k qc i smallest =
     (let pn = pkt_pn pkt
      in if pn = smallest - 1 then (NGX_OK, ctx_update k (ngx_quic_ack_grow_prev i 1) qc)
         else if nranges (send_ctx qc k) = N then
           (if pkt_need_ack pkt then ngx_quic_send_ack_range k qc pn pn else (NGX_OK, qc))
         else (NGX_OK, ctx_update k (ngx_quic_ack_insert N i (smallest - 2 - pn) 0) qc))"

text \<open>
  The loop over the ranges, newest first. \<open>smallest\<close> is the lower end of the range before
  the gap that entry \<open>i\<close> describes.
\<close>

function ngx_quic_ack_lookup ::
  "nat \<Rightarrow> u64 \<Rightarrow> ngx_quic_header_t \<Rightarrow> u64 \<Rightarrow> nat \<Rightarrow> ngx_quic_connection_t \<Rightarrow> nat
   \<Rightarrow> u64 \<Rightarrow> ngx_int_t \<times> ngx_quic_connection_t" where
  "ngx_quic_ack_lookup N now pkt prev_pending k qc i smallest =
     (if i < nranges (send_ctx qc k) then
        (let r = ranges (send_ctx qc k) ! i;
             pn = pkt_pn pkt;
             ge = smallest - 1;
             gs = ge - gap r
         in if pn \<ge> gs \<and> pn \<le> ge then ngx_quic_ack_gap N now pkt prev_pending k qc i gs ge
            else
              (let largest = smallest - gap r - 2;
                   smallest1 = largest - range' r
               in if pn \<ge> smallest1 \<and> pn \<le> largest then (NGX_OK, qc)
                  else ngx_quic_ack_lookup N now pkt prev_pending k qc (i + 1) smallest1))
      else ngx_quic_ack_tail N pkt k qc i smallest)"
  by pat_completeness auto
termination
  by (relation "measure (\<lambda>(N, now, pkt, pp, k, qc, i, sm). nranges (send_ctx qc k) - i)") auto

declare ngx_quic_ack_lookup.simps [simp del]

text \<open>
  The bookkeeping at the start of \<^verbatim>\<open>ngx_quic_ack_packet\<close> for an ack-eliciting
  packet: the delay clock starts with the first unacknowledged packet, the counter
  \<^verbatim>\<open>send_ack\<close> grows, and \<^verbatim>\<open>pending_ack\<close> follows the largest such packet number.
\<close>

definition ngx_quic_ack_pending ::
  "u64 \<Rightarrow> ngx_quic_header_t \<Rightarrow> ngx_quic_send_ctx_t \<Rightarrow> ngx_quic_send_ctx_t" where
  "ngx_quic_ack_pending now pkt ctx =
     (let ctx1 = (if send_ack ctx = 0 then ctx\<lparr>ack_delay_start := now\<rparr> else ctx);
          ctx2 = ctx1\<lparr>send_ack := send_ack ctx1 + 1\<rparr>
      in if pending_ack ctx2 = NGX_QUIC_UNSET_PN \<or> pending_ack ctx2 < pkt_pn pkt
         then ctx2\<lparr>pending_ack := pkt_pn pkt\<rparr> else ctx2)"

definition ngx_quic_ack_packet ::
  "nat \<Rightarrow> u64 \<Rightarrow> ngx_quic_connection_t \<Rightarrow> ngx_quic_header_t
   \<Rightarrow> ngx_int_t \<times> ngx_quic_connection_t" where
  "ngx_quic_ack_packet N now qc0 pkt =
     (let k = ngx_quic_get_send_ctx (pkt_level pkt);
          prev_pending = pending_ack (send_ctx qc0 k);
          qc = (if pkt_need_ack pkt
                then ctx_update k (ngx_quic_ack_pending now pkt) (qc0\<lparr>push_posted := True\<rparr>)
                else qc0);
          base = largest_range (send_ctx qc k);
          pn = pkt_pn pkt
      in if base = NGX_QUIC_UNSET_PN then
           (NGX_OK,
            ctx_update k
              (\<lambda>ctx. ctx\<lparr>largest_range := pn, largest_received := pkt_received pkt\<rparr>) qc)
         else if base = pn then (NGX_OK, qc)
         else
           (let largest = base; smallest = largest - first_range (send_ctx qc k)
            in if pn > base then
                 (if pn - base = 1 then
                    (NGX_OK,
                     ctx_update k
                       (\<lambda>ctx. ctx\<lparr>first_range := first_range ctx + 1, largest_range := pn,
                                  largest_received := pkt_received pkt\<rparr>)
                       qc)
                  else
                    (case ngx_quic_ack_flush N now pkt prev_pending k qc of
                       (NGX_OK, qc1) \<Rightarrow>
                         (let g = pn - base - 2;
                              r = first_range (send_ctx qc1 k);
                              qc2 = ctx_update k
                                      (\<lambda>ctx. ctx\<lparr>first_range := 0, largest_range := pn,
                                                 largest_received := pkt_received pkt\<rparr>)
                                      qc1;
                              qc3 = (if pkt_need_ack pkt
                                     then ctx_update k
                                            (\<lambda>ctx. ctx\<lparr>send_ack := NGX_QUIC_MAX_ACK_GAP\<rparr>) qc2
                                     else qc2)
                          in (NGX_OK, ctx_update k (ngx_quic_ack_insert N 0 g r) qc3))
                     | (rc, qc1) \<Rightarrow> (NGX_ERROR, qc1)))
               else
                 (let qc1 = (if pkt_need_ack pkt
                             then ctx_update k
                                    (\<lambda>ctx. ctx\<lparr>send_ack := NGX_QUIC_MAX_ACK_GAP\<rparr>) qc
                             else qc)
                  in if pn \<ge> smallest \<and> pn \<le> largest then (NGX_OK, qc1)
                     else ngx_quic_ack_lookup N now pkt prev_pending k qc1 0 smallest)))"

section \<open>The set of packet numbers an accumulator stands for\<close>

text \<open>
  An entry of the table is read relative to the lower end \<open>sm\<close> of the range above it:
  its gap leaves \<open>gap + 1\<close> packet numbers out, so its range ends at \<open>sm - gap - 2\<close>
  and starts \<open>range'\<close> below that. An entry fits when both ends are not negative.
\<close>

definition hi_of :: "nat \<Rightarrow> ngx_quic_ack_range_t \<Rightarrow> nat" where
  "hi_of sm r = sm - unat (gap r) - 2"

definition lo_of :: "nat \<Rightarrow> ngx_quic_ack_range_t \<Rightarrow> nat" where
  "lo_of sm r = sm - unat (gap r) - 2 - unat (range' r)"

definition fits :: "nat \<Rightarrow> ngx_quic_ack_range_t \<Rightarrow> bool" where
  "fits sm r = (unat (gap r) + unat (range' r) + 2 \<le> sm)"

fun chain_ok :: "nat \<Rightarrow> ngx_quic_ack_range_t list \<Rightarrow> bool" where
  "chain_ok sm [] = True"
| "chain_ok sm (r # rs) = (fits sm r \<and> chain_ok (lo_of sm r) rs)"

fun chain_end :: "nat \<Rightarrow> ngx_quic_ack_range_t list \<Rightarrow> nat" where
  "chain_end sm [] = sm"
| "chain_end sm (r # rs) = chain_end (lo_of sm r) rs"

fun chain_pns :: "nat \<Rightarrow> ngx_quic_ack_range_t list \<Rightarrow> nat set" where
  "chain_pns sm [] = {}"
| "chain_pns sm (r # rs) = {lo_of sm r .. hi_of sm r} \<union> chain_pns (lo_of sm r) rs"

text \<open>
  The first range, which ends at \<^verbatim>\<open>largest_range\<close> and spans \<^verbatim>\<open>first_range\<close>, is read
  as one more entry in front of the table, with gap 0 and relative to
  \<^verbatim>\<open>largest_range\<close> + 2.
\<close>

definition ext :: "ngx_quic_send_ctx_t \<Rightarrow> ngx_quic_ack_range_t list" where
  "ext ctx = \<lparr>gap = 0, range' = first_range ctx\<rparr> # ranges ctx"

text \<open>
  The accumulator is well formed when it is empty (no largest packet number, no ranges) or
  every entry fits; \<open>acc_pns\<close> is the set of packet numbers it stands for.
\<close>

definition acc_ok :: "ngx_quic_send_ctx_t \<Rightarrow> bool" where
  "acc_ok ctx =
     (if largest_range ctx = NGX_QUIC_UNSET_PN then first_range ctx = 0 \<and> ranges ctx = []
      else chain_ok (unat (largest_range ctx) + 2) (ext ctx))"

definition acc_pns :: "ngx_quic_send_ctx_t \<Rightarrow> nat set" where
  "acc_pns ctx =
     (if largest_range ctx = NGX_QUIC_UNSET_PN then {}
      else chain_pns (unat (largest_range ctx) + 2) (ext ctx))"


text \<open>The three parts of a send context that make up the accumulator.\<close>

definition acc_view :: "ngx_quic_send_ctx_t \<Rightarrow> u64 \<times> u64 \<times> ngx_quic_ack_range_t list" where
  "acc_view ctx = (largest_range ctx, first_range ctx, ranges ctx)"


text \<open>
  The outcome of an update that records the packet number \<open>x\<close>: success, a well-formed
  accumulator, and the old set with \<open>x\<close> added. \<open>acc_post\<close> is the same for an update
  that leaves the largest packet number in place.
\<close>

definition acc_post ::
  "ngx_quic_send_ctx_t \<Rightarrow> nat \<Rightarrow> nat \<Rightarrow> ngx_int_t \<times> ngx_quic_connection_t \<Rightarrow> bool" where
  "acc_post ctx x k res =
     (fst res = NGX_OK
      \<and> largest_range (send_ctx (snd res) k) = largest_range ctx
      \<and> chain_ok (unat (largest_range ctx) + 2) (ext (send_ctx (snd res) k))
      \<and> chain_pns (unat (largest_range ctx) + 2) (ext (send_ctx (snd res) k))
          = insert x (chain_pns (unat (largest_range ctx) + 2) (ext ctx)))"


definition acc_result ::
  "ngx_quic_send_ctx_t \<Rightarrow> nat \<Rightarrow> nat \<Rightarrow> ngx_int_t \<times> ngx_quic_connection_t \<Rightarrow> bool" where
  "acc_result ctx x k res =
     (fst res = NGX_OK
      \<and> largest_range (send_ctx (snd res) k) \<noteq> NGX_QUIC_UNSET_PN
      \<and> acc_ok (send_ctx (snd res) k)
      \<and> acc_pns (send_ctx (snd res) k) = insert x (acc_pns ctx))"


text \<open>
  A sequence of received packets, each with the clock value at which it is handled, goes
  through \<^verbatim>\<open>ngx_quic_ack_packet\<close> one packet after the other; the first failure ends
  the run, as it closes the connection.
\<close>

fun ngx_quic_ack_packets ::
  "nat \<Rightarrow> ngx_quic_connection_t \<Rightarrow> (u64 \<times> ngx_quic_header_t) list
   \<Rightarrow> ngx_int_t \<times> ngx_quic_connection_t" where
  "ngx_quic_ack_packets N qc [] = (NGX_OK, qc)"
| "ngx_quic_ack_packets N qc ((now, pkt) # ps) =
     (case ngx_quic_ack_packet N now qc pkt of
        (NGX_OK, qc1) \<Rightarrow> ngx_quic_ack_packets N qc1 ps
      | (rc, qc1) \<Rightarrow> (rc, qc1))"

text \<open>
  The table of the space \<open>k\<close> stays below its capacity \<open>N\<close> before and after every
  packet of the run.
\<close>

fun below_capacity ::
  "nat \<Rightarrow> nat \<Rightarrow> ngx_quic_connection_t \<Rightarrow> (u64 \<times> ngx_quic_header_t) list \<Rightarrow> bool" where
  "below_capacity N k qc [] = (nranges (send_ctx qc k) < N)"
| "below_capacity N k qc ((now, pkt) # ps) =
     (nranges (send_ctx qc k) < N
      \<and> below_capacity N k (snd (ngx_quic_ack_packet N now qc pkt)) ps)"

text \<open>
  All packets of the run belong to the space \<open>k\<close> and carry a real packet number;
  \<open>pns_of\<close> is the set of their packet numbers.
\<close>

definition in_space :: "nat \<Rightarrow> (u64 \<times> ngx_quic_header_t) list \<Rightarrow> bool" where
  "in_space k ps =
     list_all (\<lambda>(now, pkt). ngx_quic_get_send_ctx (pkt_level pkt) = k
                 \<and> pkt_pn pkt \<noteq> NGX_QUIC_UNSET_PN) ps"

definition pns_of :: "(u64 \<times> ngx_quic_header_t) list \<Rightarrow> u64 set" where
  "pns_of ps = set (map (\<lambda>(now, pkt). pkt_pn pkt) ps)"

section \<open>Sample inputs\<close>

text \<open>
  A configuration, the connection created from it, and a received 1-RTT packet with a given
  packet number; the theorems below are instantiated at these.
\<close>

definition sample_tp :: ngx_quic_tp_t where
  "sample_tp = \<lparr>max_idle_timeout = 60000, max_udp_payload_size = 1200, max_ack_delay = 25,
     ack_delay_exponent = 3, active_connection_id_limit = 2, initial_max_data = 1048576,
     initial_max_streams_bidi = 16, initial_max_streams_uni = 3,
     initial_max_stream_data_bidi_local = 65536, initial_max_stream_data_bidi_remote = 65536,
     initial_max_stream_data_uni = 65536\<rparr>"

definition sample_conn :: ngx_quic_connection_t where
  "sample_conn = ngx_quic_new_connection sample_tp sample_tp 1000 [1, 2, 3, 4, 5, 6, 7, 8] 64"

definition sample_pkt :: "u64 \<Rightarrow> bool \<Rightarrow> ngx_quic_header_t" where
  "sample_pkt pn need =
     \<lparr>pkt_flags = 0x40, pkt_number = 0, pkt_num_len = 0, pkt_trunc = 0,
      pkt_level = ssl_encryption_application, pkt_pn = pn, pkt_need_ack = need,
      pkt_received = 1000, pkt_len = 64, pkt_dcid = [9, 9, 9, 9, 9, 9, 9, 9]\<rparr>"

text \<open>
  The application space after the packets 100, 90 and 80 have arrived, with a table of
  capacity 2: both entries are in use.
\<close>

definition full_conn :: ngx_quic_connection_t where
  "full_conn = ctx_update 2
     (\<lambda>ctx. ctx\<lparr>largest_range := 100,
                ranges := [\<lparr>gap = 8, range' = 0\<rparr>, \<lparr>gap = 8, range' = 0\<rparr>]\<rparr>) sample_conn"

text \<open>The packet numbers 3, 4, 5 and 9 in two orders, the first with a duplicate.\<close>

definition run_a :: "(u64 \<times> ngx_quic_header_t) list" where
  "run_a = [(1000, sample_pkt 5 True), (1001, sample_pkt 3 True), (1002, sample_pkt 4 False),
            (1003, sample_pkt 9 True), (1004, sample_pkt 3 True)]"

definition run_b :: "(u64 \<times> ngx_quic_header_t) list" where
  "run_b = [(1000, sample_pkt 3 True), (1001, sample_pkt 4 False), (1002, sample_pkt 5 True),
            (1003, sample_pkt 9 True)]"

text \<open>
  The packet numbers 1 to 7 in sorted order, and with the odd numbers before the even
  ones.
\<close>

definition run_sorted :: "(u64 \<times> ngx_quic_header_t) list" where
  "run_sorted = [(1000, sample_pkt 1 True), (1001, sample_pkt 2 True), (1002, sample_pkt 3 True),
                 (1003, sample_pkt 4 True), (1004, sample_pkt 5 True), (1005, sample_pkt 6 True),
                 (1006, sample_pkt 7 True)]"

definition run_odd_even :: "(u64 \<times> ngx_quic_header_t) list" where
  "run_odd_even = [(1000, sample_pkt 1 True), (1001, sample_pkt 3 True), (1002, sample_pkt 5 True),
                   (1003, sample_pkt 7 True), (1004, sample_pkt 2 True), (1005, sample_pkt 4 True),
                   (1006, sample_pkt 6 True)]"

section \<open>Congestion control\<close>

text \<open>
  \<^verbatim>\<open>ngx_quic_congestion_ack\<close>. The times \<^verbatim>\<open>ngx_msec_t\<close> and the sizes \<^verbatim>\<open>size_t\<close> are
  64-bit words; the cast to \<^verbatim>\<open>ngx_msec_int_t\<close> is \<open>sint\<close>. The congestion-avoidance branch
  divides by the window: the result is \<open>None\<close> when the window is zero. The argument \<open>now\<close>
  is \<^verbatim>\<open>ngx_current_msec\<close>.
\<close>

definition ngx_quic_congestion_ack ::
  "u64 \<Rightarrow> ngx_quic_connection_t \<Rightarrow> ngx_quic_frame_t \<Rightarrow> ngx_quic_connection_t option" where
  "ngx_quic_congestion_ack now qc f =
     (if f_plen f = 0 then Some qc
      else
        (let cg = (congestion qc)\<lparr>in_flight := in_flight (congestion qc) - f_plen f\<rparr>;
             timer = f_last f - recovery_start cg
         in if sint timer \<le> 0 then Some (qc\<lparr>congestion := cg\<rparr>)
            else
              (case (if window cg < ssthresh cg
                     then Some (cg\<lparr>window := window cg + f_plen f\<rparr>)
                     else if window cg = 0 then None
                     else Some (cg\<lparr>window := window cg
                                  + max_udp_payload_size (tp qc) * f_plen f div window cg\<rparr>)) of
                 None \<Rightarrow> None
               | Some cg1 \<Rightarrow>
                   (let timer1 = recovery_start cg1 - now + max_idle_timeout (tp qc) * 2
                    in if sint timer1 < 0
                       then Some (qc\<lparr>congestion :=
                                    cg1\<lparr>recovery_start := now - max_idle_timeout (tp qc) * 2\<rparr>\<rparr>)
                       else Some (qc\<lparr>congestion := cg1\<rparr>)))))"

text \<open>
  \<^verbatim>\<open>ngx_quic_congestion_lost\<close>; the frame is returned because its \<^verbatim>\<open>plen\<close> is cleared.
\<close>

definition ngx_quic_congestion_lost ::
  "u64 \<Rightarrow> ngx_quic_connection_t \<Rightarrow> ngx_quic_frame_t
   \<Rightarrow> ngx_quic_connection_t \<times> ngx_quic_frame_t" where
  "ngx_quic_congestion_lost now qc f =
     (if f_plen f = 0 then (qc, f)
      else
        (let cg = (congestion qc)\<lparr>in_flight := in_flight (congestion qc) - f_plen f\<rparr>;
             f1 = f\<lparr>f_plen := 0\<rparr>;
             timer = f_last f - recovery_start cg
         in if sint timer \<le> 0 then (qc\<lparr>congestion := cg\<rparr>, f1)
            else
              (let cg1 = cg\<lparr>recovery_start := now, window := window cg div 2\<rparr>;
                   cg2 = (if window cg1 < max_udp_payload_size (tp qc) * 2
                          then cg1\<lparr>window := max_udp_payload_size (tp qc) * 2\<rparr> else cg1);
                   cg3 = cg2\<lparr>ssthresh := window cg2\<rparr>
               in (qc\<lparr>congestion := cg3\<rparr>, f1))))"

text \<open>
  A run of the controller: the acknowledgements and losses reported to it, in order, each
  with the value of \<^verbatim>\<open>ngx_current_msec\<close> at the call.
\<close>

datatype cc_event = Acked u64 ngx_quic_frame_t | Lost u64 ngx_quic_frame_t

fun cc_frame :: "cc_event \<Rightarrow> ngx_quic_frame_t" where
  "cc_frame (Acked now f) = f"
| "cc_frame (Lost now f) = f"

fun cc_step :: "ngx_quic_connection_t \<Rightarrow> cc_event \<Rightarrow> ngx_quic_connection_t option" where
  "cc_step qc (Acked now f) = ngx_quic_congestion_ack now qc f"
| "cc_step qc (Lost now f) = Some (fst (ngx_quic_congestion_lost now qc f))"

fun cc_run :: "ngx_quic_connection_t \<Rightarrow> cc_event list \<Rightarrow> ngx_quic_connection_t option" where
  "cc_run qc [] = Some qc"
| "cc_run qc (e # es) = (case cc_step qc e of None \<Rightarrow> None | Some qc1 \<Rightarrow> cc_run qc1 es)"

text \<open>
  The floor of the window, read without wrap-around, and the invariant that carries it
  through acknowledgements: after a loss the window is not below \<open>ssthresh\<close>, so the
  controller stays in congestion avoidance.
\<close>

definition cc_floor :: "ngx_quic_connection_t \<Rightarrow> bool" where
  "cc_floor qc =
     (2 * unat (max_udp_payload_size (tp qc)) \<le> unat (window (congestion qc)))"

definition cc_inv :: "ngx_quic_connection_t \<Rightarrow> bool" where
  "cc_inv qc =
     (cc_floor qc
      \<and> ssthresh (congestion qc) \<le> window (congestion qc)
      \<and> unat (window (congestion qc)) < 2 ^ 63)"

definition cc_sample_lost :: ngx_quic_frame_t where
  "cc_sample_lost = zero_frame\<lparr>f_plen := 1200, f_last := 1500\<rparr>"

definition cc_sample_events :: "cc_event list" where
  "cc_sample_events =
     [Acked 3000 (zero_frame\<lparr>f_plen := 1200, f_last := 2500\<rparr>),
      Lost 4000 (zero_frame\<lparr>f_plen := 1200, f_last := 3500\<rparr>)]"

text \<open>
  The sample connection after the loss, reported at the time 2000, of a packet sent at the
  time 1500; and a second packet, sent at the time 1600.
\<close>

definition cc_conn1 :: ngx_quic_connection_t where
  "cc_conn1 = fst (ngx_quic_congestion_lost 2000 sample_conn cc_sample_lost)"

definition cc_sample_old :: ngx_quic_frame_t where
  "cc_sample_old = zero_frame\<lparr>f_plen := 1200, f_last := 1600\<rparr>"

section \<open>Acknowledged ranges: ngx_quic_handle_ack_frame_range\<close>

text \<open>
  \<^verbatim>\<open>NGX_TIMER_INFINITE\<close> is \<^verbatim>\<open>(ngx_msec_t) -1\<close> in the nginx core, whose header is not part
  of the file. The function below only stores it in \<^verbatim>\<open>*send_time\<close>.
\<close>

definition NGX_TIMER_INFINITE :: u64 where "NGX_TIMER_INFINITE = - 1"

text \<open>
  \<^verbatim>\<open>ngx_quic_free_frame\<close>: the data buffer goes back to the allocator, the frame to the
  free list.
\<close>

definition ngx_quic_free_frame ::
  "ngx_quic_connection_t \<Rightarrow> ngx_quic_frame_t \<Rightarrow> ngx_quic_connection_t" where
  "ngx_quic_free_frame qc frame =
     (let qc1 = (if f_data frame then qc\<lparr>mem := mem qc + 1\<rparr> else qc)
      in qc1\<lparr>free_frames := free_frames qc1 + 1\<rparr>)"

text \<open>
  \<^verbatim>\<open>ngx_quic_drop_ack_ranges\<close>. The loop walks the table with the ranges already passed in
  \<open>seen\<close>; setting \<^verbatim>\<open>nranges\<close> to \<open>i\<close> keeps them, setting it to \<open>i + 1\<close> keeps the
  current range as well, shortened.
\<close>

fun ngx_quic_drop_ack_ranges_loop ::
  "u64 \<Rightarrow> u64 \<Rightarrow> ngx_quic_ack_range_t list \<Rightarrow> ngx_quic_ack_range_t list
   \<Rightarrow> ngx_quic_ack_range_t list" where
  "ngx_quic_drop_ack_ranges_loop pn smallest seen [] = seen"
| "ngx_quic_drop_ack_ranges_loop pn smallest seen (r # rs) =
     (let largest = smallest - gap r - 2;
          smallest1 = largest - range' r
      in if pn \<ge> largest then seen
         else if pn \<ge> smallest1 then seen @ [r\<lparr>range' := largest - pn - 1\<rparr>]
         else ngx_quic_drop_ack_ranges_loop pn smallest1 (seen @ [r]) rs)"

definition ngx_quic_drop_ack_ranges :: "ngx_quic_send_ctx_t \<Rightarrow> u64 \<Rightarrow> ngx_quic_send_ctx_t" where
  "ngx_quic_drop_ack_ranges ctx pn =
     (let base = largest_range ctx
      in if base = NGX_QUIC_UNSET_PN then ctx
         else
           (let ctx1 = (if pending_ack ctx \<noteq> NGX_QUIC_UNSET_PN \<and> pn \<ge> pending_ack ctx
                        then ctx\<lparr>pending_ack := NGX_QUIC_UNSET_PN\<rparr> else ctx);
                largest = base;
                smallest = largest - first_range ctx1
            in if pn \<ge> largest
               then ctx1\<lparr>largest_range := NGX_QUIC_UNSET_PN, first_range := 0, ranges := []\<rparr>
               else if pn \<ge> smallest
               then ctx1\<lparr>first_range := largest - pn - 1, ranges := []\<rparr>
               else ctx1\<lparr>ranges :=
                      ngx_quic_drop_ack_ranges_loop pn smallest [] (ranges ctx1)\<rparr>))"

text \<open>
  \<^verbatim>\<open>ngx_quic_find_stream\<close> and the write through the pointer it returns.
\<close>

definition ngx_quic_find_stream ::
  "ngx_quic_stream_t list \<Rightarrow> u64 \<Rightarrow> ngx_quic_stream_t option" where
  "ngx_quic_find_stream rbtree sid = find (\<lambda>qn. qs_id qn = sid) rbtree"

fun stream_update ::
  "u64 \<Rightarrow> (ngx_quic_stream_t \<Rightarrow> ngx_quic_stream_t) \<Rightarrow> ngx_quic_stream_t list
   \<Rightarrow> ngx_quic_stream_t list" where
  "stream_update sid g [] = []"
| "stream_update sid g (qn # t) =
     (if qs_id qn = sid then g qn # t else qn # stream_update sid g t)"

text \<open>
  \<^verbatim>\<open>ngx_quic_handle_stream_ack\<close>; \<open>bufsize\<close> is \<^verbatim>\<open>NGX_QUIC_STREAM_BUFSIZE\<close>, whose value the
  header gives. The union of a frame is read under the member that the frame was built
  with.
\<close>

definition ngx_quic_handle_stream_ack ::
  "u64 \<Rightarrow> ngx_quic_connection_t \<Rightarrow> ngx_quic_frame_t \<Rightarrow> ngx_quic_connection_t" where
  "ngx_quic_handle_stream_ack bufsize qc f =
     (case f_u f of
        U_STREAM sid off len \<Rightarrow>
          (case ngx_quic_find_stream (tree (streams qc)) sid of
             None \<Rightarrow> qc
           | Some sn \<Rightarrow>
               (let unacked = qs_sent sn - qs_acked sn;
                    wake = (unacked \<ge> bufsize \<and> qs_wev_active sn)
                in qc\<lparr>streams := (streams qc)\<lparr>tree :=
                     stream_update sid
                       (\<lambda>s. (if wake then s\<lparr>qs_wev_ready := True, qs_wev_posted := True\<rparr> else s)
                               \<lparr>qs_acked := qs_acked s + len\<rparr>)
                       (tree (streams qc))\<rparr>\<rparr>))
      | _ \<Rightarrow> qc)"

text \<open>
  \<^verbatim>\<open>ngx_quic_handle_ack_frame_range\<close> on the packet number space \<open>k\<close>. The loop goes from
  the tail of the sent queue to its head: \<open>i\<close> is the number of frames not yet visited,
  and the state is the connection with \<^verbatim>\<open>found\<close>, \<^verbatim>\<open>found_num\<close> and \<^verbatim>\<open>*send_time\<close>. The
  result is \<open>None\<close> when \<^verbatim>\<open>ngx_quic_congestion_ack\<close> divides by zero.
\<close>

type_synonym ack_range_state = "ngx_quic_connection_t \<times> bool \<times> u64 \<times> u64"

fun ngx_quic_handle_ack_frame_range_loop ::
  "u64 \<Rightarrow> u64 \<Rightarrow> nat \<Rightarrow> u64 \<Rightarrow> u64 \<Rightarrow> nat \<Rightarrow> ack_range_state
   \<Rightarrow> ack_range_state option" where
  "ngx_quic_handle_ack_frame_range_loop bufsize now k mn mx 0 st = Some st"
| "ngx_quic_handle_ack_frame_range_loop bufsize now k mn mx (Suc i)
       (qc, found, found_num, send_time) =
     (let f = sent (send_ctx qc k) ! i
      in if f_pnum f \<ge> mn \<and> f_pnum f \<le> mx
         then
           (case ngx_quic_congestion_ack now qc f of
              None \<Rightarrow> None
            | Some qc1 \<Rightarrow>
                (let qc2 =
                       (if f_type f = NGX_QUIC_FT_ACK \<or> f_type f = NGX_QUIC_FT_ACK_ECN
                        then (case f_u f of
                                U_ACK largest d n fr rs \<Rightarrow>
                                  ctx_update k (\<lambda>ctx. ngx_quic_drop_ack_ranges ctx largest) qc1
                              | _ \<Rightarrow> qc1)
                        else if NGX_QUIC_FT_STREAM0 \<le> f_type f \<and> f_type f \<le> NGX_QUIC_FT_STREAM7
                        then ngx_quic_handle_stream_ack bufsize qc1 f
                        else qc1);
                     newer = (f_pnum f > found_num \<or> \<not> found);
                     qc3 = ctx_update k
                             (\<lambda>ctx. ctx\<lparr>sent := take i (sent ctx) @ drop (Suc i) (sent ctx)\<rparr>) qc2
                 in ngx_quic_handle_ack_frame_range_loop bufsize now k mn mx i
                      (ngx_quic_free_frame qc3 f, True,
                       if newer then f_pnum f else found_num,
                       if newer then f_last f else send_time)))
         else ngx_quic_handle_ack_frame_range_loop bufsize now k mn mx i
                (qc, found, found_num, send_time))"

definition ngx_quic_handle_ack_frame_range ::
  "u64 \<Rightarrow> u64 \<Rightarrow> nat \<Rightarrow> ngx_quic_connection_t \<Rightarrow> u64 \<Rightarrow> u64
   \<Rightarrow> (ngx_int_t \<times> ngx_quic_connection_t \<times> u64) option" where
  "ngx_quic_handle_ack_frame_range bufsize now k qc mn mx =
     (case ngx_quic_handle_ack_frame_range_loop bufsize now k mn mx
             (length (sent (send_ctx qc k))) (qc, False, 0, NGX_TIMER_INFINITE) of
        None \<Rightarrow> None
      | Some (qc1, found, found_num, send_time) \<Rightarrow>
          if \<not> found
          then (if mx < pnum (send_ctx qc1 k) then Some (NGX_OK, qc1, send_time)
                else Some (NGX_ERROR,
                           qc1\<lparr>error := NGX_QUIC_ERR_PROTOCOL_VIOLATION,
                               error_ftype := NGX_QUIC_FT_ACK,
                               error_reason := ''unknown packet number''\<rparr>,
                           send_time))
          else
            (let qc2 = (if \<not> push_timer_set qc1 then qc1\<lparr>push_posted := True\<rparr> else qc1)
             in Some (NGX_OK, qc2\<lparr>pto_count := 0\<rparr>, send_time)))"

definition ack_sample_conn :: ngx_quic_connection_t where
  "ack_sample_conn =
     ctx_update 2 (\<lambda>ctx. ctx\<lparr>pnum := 6,
        sent := [zero_frame\<lparr>f_pnum := 3, f_plen := 1200, f_last := 1500\<rparr>,
                 zero_frame\<lparr>f_pnum := 5, f_plen := 1200, f_last := 1600\<rparr>]\<rparr>) sample_conn"

section \<open>Streams opened by the client: ngx_quic_create_client_stream\<close>

text \<open>
  Modelled from the spec: the two low bits of a stream identifier give its initiator and
  its direction, and the remaining bits its number. The header that defines
  \<^verbatim>\<open>NGX_QUIC_STREAM_SERVER_INITIATED\<close> and \<^verbatim>\<open>NGX_QUIC_STREAM_UNIDIRECTIONAL\<close> is not part of
  the file; the values are the ones of the wire protocol.
\<close>

definition NGX_QUIC_STREAM_SERVER_INITIATED :: u64 where
  "NGX_QUIC_STREAM_SERVER_INITIATED = 0x01"

definition NGX_QUIC_STREAM_UNIDIRECTIONAL :: u64 where
  "NGX_QUIC_STREAM_UNIDIRECTIONAL = 0x02"

text \<open>
  What a function returning \<^verbatim>\<open>ngx_quic_stream_t *\<close> gives: \<^verbatim>\<open>NULL\<close>,
  \<^verbatim>\<open>NGX_QUIC_STREAM_GONE\<close>, or the stream.
\<close>

datatype stream_ptr = STREAM_NULL | NGX_QUIC_STREAM_GONE | STREAM ngx_quic_stream_t

text \<open>
  \<^verbatim>\<open>ngx_quic_create_stream\<close> makes six requests in a row (the pool, the stream, its
  buffer, the log, the connection, the pool cleanup); when one of them fails the pool is
  destroyed with all that was taken so far, so the budget is as before and the result is
  \<^verbatim>\<open>NULL\<close>. The new node is added to the tree.
\<close>

definition ngx_quic_create_stream ::
  "ngx_quic_connection_t \<Rightarrow> u64 \<Rightarrow> u64
   \<Rightarrow> ngx_quic_stream_t option \<times> ngx_quic_connection_t" where
  "ngx_quic_create_stream qc sid rcvbuf_size =
     (if mem qc < 6 then (None, qc)
      else
        (let sn = \<lparr>qs_id = sid, qs_acked = 0,
                    qs_send_max_data =
                      (if sid AND NGX_QUIC_STREAM_UNIDIRECTIONAL \<noteq> 0
                       then (if sid AND NGX_QUIC_STREAM_SERVER_INITIATED \<noteq> 0
                             then initial_max_stream_data_uni (ctp qc) else 0)
                       else (if sid AND NGX_QUIC_STREAM_SERVER_INITIATED \<noteq> 0
                             then initial_max_stream_data_bidi_remote (ctp qc)
                             else initial_max_stream_data_bidi_local (ctp qc))),
                    qs_sent = 0, qs_rcvbuf_size = rcvbuf_size, qs_wev_active = False,
                    qs_wev_ready = (sid AND NGX_QUIC_STREAM_UNIDIRECTIONAL = 0
                                    \<or> sid AND NGX_QUIC_STREAM_SERVER_INITIATED \<noteq> 0),
                    qs_wev_posted = False\<rparr>
         in (Some sn,
             qc\<lparr>mem := mem qc - 6,
                streams := (streams qc)\<lparr>tree := tree (streams qc) @ [sn]\<rparr>\<rparr>)))"

text \<open>
  The loop of \<^verbatim>\<open>ngx_quic_create_client_stream\<close> and the creation that follows it. The
  listening handler is code of the application: a call of it is recorded in \<open>accepted\<close>.
  Every round takes from the budget, which bounds the number of rounds.
\<close>

function ngx_quic_create_client_stream_loop ::
  "ngx_quic_connection_t \<Rightarrow> u64 \<Rightarrow> u64 \<Rightarrow> u64 \<Rightarrow> stream_ptr \<times> ngx_quic_connection_t" where
  "ngx_quic_create_client_stream_loop qc min_id sid n =
     (if min_id < sid
      then (case ngx_quic_create_stream qc min_id n of
              (None, qc1) \<Rightarrow> (STREAM_NULL, qc1)
            | (Some sn, qc1) \<Rightarrow>
                ngx_quic_create_client_stream_loop
                  (qc1\<lparr>accepted := accepted qc1 @ [qs_id sn]\<rparr>) (min_id + 0x04) sid n)
      else (case ngx_quic_create_stream qc sid n of
              (None, qc1) \<Rightarrow> (STREAM_NULL, qc1)
            | (Some sn, qc1) \<Rightarrow> (STREAM sn, qc1)))"
  by pat_completeness auto
termination
  by (relation "measure (\<lambda>(qc, min_id, sid, n). mem qc)")
     (auto simp: ngx_quic_create_stream_def Let_def split: if_splits)

declare ngx_quic_create_client_stream_loop.simps [simp del]

definition ngx_quic_create_client_stream ::
  "u64 \<Rightarrow> ngx_quic_connection_t \<Rightarrow> u64 \<Rightarrow> stream_ptr \<times> ngx_quic_connection_t" where
  "ngx_quic_create_client_stream bufsize qc sid =
     (let ss = streams qc
      in if sid AND NGX_QUIC_STREAM_UNIDIRECTIONAL \<noteq> 0
         then
           (if sid AND NGX_QUIC_STREAM_SERVER_INITIATED \<noteq> 0
            then (if drop_bit 2 sid < server_streams_uni ss then (NGX_QUIC_STREAM_GONE, qc)
                  else (STREAM_NULL, qc\<lparr>error := NGX_QUIC_ERR_STREAM_STATE_ERROR\<rparr>))
            else if drop_bit 2 sid < client_streams_uni ss then (NGX_QUIC_STREAM_GONE, qc)
            else if drop_bit 2 sid \<ge> client_max_streams_uni ss
            then (STREAM_NULL, qc\<lparr>error := NGX_QUIC_ERR_STREAM_LIMIT_ERROR\<rparr>)
            else
              (let min_id = push_bit 2 (client_streams_uni ss) OR NGX_QUIC_STREAM_UNIDIRECTIONAL;
                   qc1 = qc\<lparr>streams := ss\<lparr>client_streams_uni := drop_bit 2 sid + 1\<rparr>\<rparr>;
                   n = initial_max_stream_data_uni (tp qc)
               in ngx_quic_create_client_stream_loop qc1 min_id sid
                    (if n < bufsize then bufsize else n)))
         else
           (if sid AND NGX_QUIC_STREAM_SERVER_INITIATED \<noteq> 0
            then (if drop_bit 2 sid < server_streams_bidi ss then (NGX_QUIC_STREAM_GONE, qc)
                  else (STREAM_NULL, qc\<lparr>error := NGX_QUIC_ERR_STREAM_STATE_ERROR\<rparr>))
            else if drop_bit 2 sid < client_streams_bidi ss then (NGX_QUIC_STREAM_GONE, qc)
            else if drop_bit 2 sid \<ge> client_max_streams_bidi ss
            then (STREAM_NULL, qc\<lparr>error := NGX_QUIC_ERR_STREAM_LIMIT_ERROR\<rparr>)
            else
              (let min_id = push_bit 2 (client_streams_bidi ss);
                   qc1 = qc\<lparr>streams := ss\<lparr>client_streams_bidi := drop_bit 2 sid + 1\<rparr>\<rparr>;
                   n = initial_max_stream_data_bidi_remote (tp qc)
               in ngx_quic_create_client_stream_loop qc1 min_id sid
                    (if n < bufsize then bufsize else n))))"

text \<open>
  The counters of the type of a stream identifier, and the identifiers of that type with
  the numbers \<open>a\<close> up to \<open>b\<close>, \<open>b\<close> left out.
\<close>

definition client_streams :: "ngx_quic_connection_t \<Rightarrow> u64 \<Rightarrow> u64" where
  "client_streams qc sid =
     (if sid AND NGX_QUIC_STREAM_UNIDIRECTIONAL \<noteq> 0 then client_streams_uni (streams qc)
      else client_streams_bidi (streams qc))"

definition client_max_streams :: "ngx_quic_connection_t \<Rightarrow> u64 \<Rightarrow> u64" where
  "client_max_streams qc sid =
     (if sid AND NGX_QUIC_STREAM_UNIDIRECTIONAL \<noteq> 0 then client_max_streams_uni (streams qc)
      else client_max_streams_bidi (streams qc))"

definition stream_ids :: "u64 \<Rightarrow> nat \<Rightarrow> nat \<Rightarrow> u64 list" where
  "stream_ids sid a b = map (\<lambda>j. of_nat (4 * j) + (sid AND 3)) [a..<b]"

section \<open>Flow control credits: MAX_DATA, MAX_STREAM_DATA, MAX_STREAMS\<close>

text \<open>Waking the write event of a stream: \<^verbatim>\<open>wev->ready = 1\<close> and \<^verbatim>\<open>ngx_post_event\<close>.\<close>

definition stream_wake :: "ngx_quic_stream_t \<Rightarrow> ngx_quic_stream_t" where
  "stream_wake qs = qs\<lparr>qs_wev_ready := True, qs_wev_posted := True\<rparr>"

text \<open>
  \<^verbatim>\<open>ngx_quic_handle_max_data_frame\<close>. The loop starts at \<^verbatim>\<open>ngx_rbtree_min\<close> of the root and
  the function has no test for an empty tree, which \<^verbatim>\<open>ngx_quic_close_streams\<close> has before
  the same loop. On an empty tree the root is the sentinel, \<^verbatim>\<open>ngx_rbtree_min\<close> follows its
  left pointer, which is null, and reads through it: the handler does not return, and
  the result is \<open>None\<close>. On a tree with nodes the loop visits every node.
\<close>

definition ngx_quic_handle_max_data_frame ::
  "ngx_quic_connection_t \<Rightarrow> u64 \<Rightarrow> (ngx_int_t \<times> ngx_quic_connection_t) option" where
  "ngx_quic_handle_max_data_frame qc max_data =
     (let ss = streams qc
      in if max_data \<le> ss_send_max_data ss then Some (NGX_OK, qc)
         else
           (case (if ss_sent ss \<ge> ss_send_max_data ss
                  then (if tree ss = [] then None
                        else Some (ss\<lparr>tree := map (\<lambda>qs. if qs_wev_active qs then stream_wake qs
                                                         else qs) (tree ss)\<rparr>))
                  else Some ss) of
              None \<Rightarrow> None
            | Some ss1 \<Rightarrow> Some (NGX_OK, qc\<lparr>streams := ss1\<lparr>ss_send_max_data := max_data\<rparr>\<rparr>)))"

text \<open>
  \<^verbatim>\<open>ngx_quic_handle_max_stream_data_frame\<close> for the frame with the fields \<open>fid\<close> and
  \<open>limit\<close>. The stream that \<^verbatim>\<open>ngx_quic_create_client_stream\<close> returns is the node with the
  identifier \<open>fid\<close>.
\<close>

definition ngx_quic_handle_max_stream_data_frame ::
  "u64 \<Rightarrow> ngx_quic_connection_t \<Rightarrow> u64 \<Rightarrow> u64 \<Rightarrow> ngx_int_t \<times> ngx_quic_connection_t" where
  "ngx_quic_handle_max_stream_data_frame bufsize qc fid limit =
     (if fid AND NGX_QUIC_STREAM_UNIDIRECTIONAL \<noteq> 0
         \<and> fid AND NGX_QUIC_STREAM_SERVER_INITIATED = 0
      then (NGX_ERROR, qc\<lparr>error := NGX_QUIC_ERR_STREAM_STATE_ERROR\<rparr>)
      else
        (case ngx_quic_find_stream (tree (streams qc)) fid of
           None \<Rightarrow>
             (case ngx_quic_create_client_stream bufsize qc fid of
                (STREAM_NULL, qc1) \<Rightarrow> (NGX_ERROR, qc1)
              | (NGX_QUIC_STREAM_GONE, qc1) \<Rightarrow> (NGX_OK, qc1)
              | (STREAM sn, qc1) \<Rightarrow>
                  (let qc2 = (if limit > qs_send_max_data sn
                              then qc1\<lparr>streams := (streams qc1)\<lparr>tree :=
                                     stream_update fid (\<lambda>qs. qs\<lparr>qs_send_max_data := limit\<rparr>)
                                       (tree (streams qc1))\<rparr>\<rparr>
                              else qc1)
                   in (NGX_OK, qc2\<lparr>accepted := accepted qc2 @ [fid]\<rparr>)))
         | Some sn \<Rightarrow>
             if limit \<le> qs_send_max_data sn then (NGX_OK, qc)
             else
               (NGX_OK,
                qc\<lparr>streams := (streams qc)\<lparr>tree :=
                     stream_update fid
                       (\<lambda>qs. (if qs_sent qs \<ge> qs_send_max_data qs \<and> qs_wev_active qs
                               then stream_wake qs else qs)\<lparr>qs_send_max_data := limit\<rparr>)
                       (tree (streams qc))\<rparr>\<rparr>)))"

text \<open>\<^verbatim>\<open>ngx_quic_handle_max_streams_frame\<close> for the frame with the fields \<open>bidi\<close> and \<open>limit\<close>.\<close>

definition ngx_quic_handle_max_streams_frame ::
  "ngx_quic_connection_t \<Rightarrow> bool \<Rightarrow> u64 \<Rightarrow> ngx_int_t \<times> ngx_quic_connection_t" where
  "ngx_quic_handle_max_streams_frame qc bidi limit =
     (let ss = streams qc
      in if bidi
         then (if server_max_streams_bidi ss < limit
               then (NGX_OK, qc\<lparr>streams := ss\<lparr>server_max_streams_bidi := limit\<rparr>\<rparr>)
               else (NGX_OK, qc))
         else (if server_max_streams_uni ss < limit
               then (NGX_OK, qc\<lparr>streams := ss\<lparr>server_max_streams_uni := limit\<rparr>\<rparr>)
               else (NGX_OK, qc)))"

text \<open>
  Sample connections: after the client opened its unidirectional stream 2, and after it
  opened its bidirectional stream 0.
\<close>

definition uni_conn :: ngx_quic_connection_t where
  "uni_conn = snd (ngx_quic_create_client_stream 65536 sample_conn 2)"

definition bidi_conn :: ngx_quic_connection_t where
  "bidi_conn = snd (ngx_quic_create_client_stream 65536 sample_conn 0)"

section \<open>Connection identifiers of the client: NEW_CONNECTION_ID\<close>

text \<open>\<^verbatim>\<open>ngx_quic_new_conn_id_frame_t\<close>; \<^verbatim>\<open>len\<close> is the length of \<open>nc_cid\<close>.\<close>

record ngx_quic_new_conn_id_frame_t =
  nc_seqnum :: u64
  nc_retire :: u64
  nc_cid :: "u8 list"
  nc_srt :: "u8 list"

text \<open>
  \<^verbatim>\<open>ngx_strncmp\<close> is \<^verbatim>\<open>strncmp\<close>: the result is zero when the first \<open>n\<close> bytes agree, or
  when the bytes agree up to a zero byte. \<open>strncmp_zero\<close> tells whether the result is
  zero; a missing byte is the zero byte that \<^verbatim>\<open>ngx_memzero\<close> left in the array.
\<close>

fun strncmp_zero :: "u8 list \<Rightarrow> u8 list \<Rightarrow> nat \<Rightarrow> bool" where
  "strncmp_zero xs ys 0 = True"
| "strncmp_zero xs ys (Suc n) =
     (let x = (case xs of [] \<Rightarrow> 0 | a # as \<Rightarrow> a);
          y = (case ys of [] \<Rightarrow> 0 | b # bs \<Rightarrow> b)
      in x = y \<and> (x = 0 \<or> strncmp_zero (tl xs) (tl ys) n))"

text \<open>
  Modelled from the spec: a stateless reset token has 16 bytes. The header that defines
  \<^verbatim>\<open>NGX_QUIC_SR_TOKEN_LEN\<close> is not part of the file.
\<close>

definition NGX_QUIC_SR_TOKEN_LEN :: nat where "NGX_QUIC_SR_TOKEN_LEN = 16"

text \<open>\<^verbatim>\<open>ngx_quic_retire_connection_id\<close>.\<close>

definition ngx_quic_retire_connection_id ::
  "ngx_quic_connection_t \<Rightarrow> ssl_encryption_level_t \<Rightarrow> u64
   \<Rightarrow> ngx_int_t \<times> ngx_quic_connection_t" where
  "ngx_quic_retire_connection_id qc lvl seqnum =
     (case ngx_quic_alloc_frame qc 0 of
        (False, qc1) \<Rightarrow> (NGX_ERROR, qc1)
      | (True, qc1) \<Rightarrow>
          (NGX_OK,
           ngx_quic_queue_frame qc1
             (zero_frame\<lparr>f_level := lvl, f_type := NGX_QUIC_FT_RETIRE_CONNECTION_ID,
                         f_u := U_RETIRE_CID seqnum\<rparr>)))"

text \<open>
  \<^verbatim>\<open>ngx_quic_alloc_connection_id\<close>: an entry of the free list, or one from the pool. The
  result is \<open>False\<close> for \<^verbatim>\<open>NULL\<close>.
\<close>

definition ngx_quic_alloc_connection_id ::
  "ngx_quic_connection_t \<Rightarrow> bool \<times> ngx_quic_connection_t" where
  "ngx_quic_alloc_connection_id qc =
     (if free_client_ids qc \<noteq> 0
      then (True, qc\<lparr>free_client_ids := free_client_ids qc - 1\<rparr>)
      else ngx_alloc qc)"

text \<open>
  \<^verbatim>\<open>ngx_quic_handle_new_connection_id_frame\<close>, in the three parts that its labels make.
  The first part runs to the label \<^verbatim>\<open>retire\<close>; a result other than \<^verbatim>\<open>NGX_OK\<close> is the
  result of the handler.
\<close>

definition ngx_quic_new_connection_id_add ::
  "ngx_quic_connection_t \<Rightarrow> ssl_encryption_level_t \<Rightarrow> ngx_quic_new_conn_id_frame_t
   \<Rightarrow> ngx_int_t \<times> ngx_quic_connection_t" where
  "ngx_quic_new_connection_id_add qc lvl f =
     (if nc_seqnum f < max_retired_seqnum qc
      then ngx_quic_retire_connection_id qc lvl (nc_seqnum f)
      else
        (case find (\<lambda>item. cid_seqnum item = nc_seqnum f) (client_ids qc) of
           Some cid \<Rightarrow>
             if length (cid_id cid) \<noteq> length (nc_cid f)
                \<or> \<not> strncmp_zero (cid_id cid) (nc_cid f) (length (nc_cid f))
                \<or> \<not> strncmp_zero (cid_sr_token cid) (nc_srt f) NGX_QUIC_SR_TOKEN_LEN
             then (NGX_ERROR,
                   qc\<lparr>error := NGX_QUIC_ERR_PROTOCOL_VIOLATION,
                      error_reason := ''seqnum refers to different connection id/token''\<rparr>)
             else (NGX_OK, qc)
         | None \<Rightarrow>
             (case ngx_quic_alloc_connection_id qc of
                (False, qc1) \<Rightarrow> (NGX_ERROR, qc1)
              | (True, qc1) \<Rightarrow>
                  (let cid = \<lparr>cid_seqnum = nc_seqnum f, cid_id = nc_cid f,
                               cid_sr_token = take NGX_QUIC_SR_TOKEN_LEN (nc_srt f)\<rparr>;
                       qc2 = qc1\<lparr>client_ids := client_ids qc1 @ [cid],
                                 nclient_ids := nclient_ids qc1 + 1\<rparr>
                   in (NGX_OK,
                       if nc_seqnum f > curr_seqnum qc2
                       then qc2\<lparr>scid := cid_id cid, curr_seqnum := nc_seqnum f\<rparr>
                       else qc2)))))"

text \<open>
  The loop after the label \<^verbatim>\<open>retire\<close>: \<open>kept\<close> holds the entries already passed, the
  list after it the entries still to visit.
\<close>

fun ngx_quic_new_connection_id_retire_loop ::
  "ssl_encryption_level_t \<Rightarrow> u64 \<Rightarrow> ngx_quic_client_id_t list \<Rightarrow> ngx_quic_client_id_t list
   \<Rightarrow> ngx_quic_connection_t \<Rightarrow> ngx_int_t \<times> ngx_quic_connection_t" where
  "ngx_quic_new_connection_id_retire_loop lvl retire kept [] qc = (NGX_OK, qc)"
| "ngx_quic_new_connection_id_retire_loop lvl retire kept (cid # rest) qc =
     (if cid_seqnum cid \<ge> retire
      then ngx_quic_new_connection_id_retire_loop lvl retire (kept @ [cid]) rest qc
      else
        (case ngx_quic_retire_connection_id qc lvl (cid_seqnum cid) of
           (NGX_OK, qc1) \<Rightarrow>
             ngx_quic_new_connection_id_retire_loop lvl retire kept rest
               (qc1\<lparr>client_ids := kept @ rest,
                    free_client_ids := free_client_ids qc1 + 1,
                    nclient_ids := nclient_ids qc1 - 1\<rparr>)
         | (rc, qc1) \<Rightarrow> (NGX_ERROR, qc1)))"

definition ngx_quic_new_connection_id_retire ::
  "ngx_quic_connection_t \<Rightarrow> ssl_encryption_level_t \<Rightarrow> ngx_quic_new_conn_id_frame_t
   \<Rightarrow> ngx_int_t \<times> ngx_quic_connection_t" where
  "ngx_quic_new_connection_id_retire qc lvl f =
     (if max_retired_seqnum qc \<noteq> 0 \<and> nc_retire f \<le> max_retired_seqnum qc
      then (NGX_OK, qc)
      else ngx_quic_new_connection_id_retire_loop lvl (nc_retire f) [] (client_ids qc)
             (qc\<lparr>max_retired_seqnum := nc_retire f\<rparr>))"

definition ngx_quic_handle_new_connection_id_frame ::
  "ngx_quic_connection_t \<Rightarrow> ssl_encryption_level_t \<Rightarrow> ngx_quic_new_conn_id_frame_t
   \<Rightarrow> ngx_int_t \<times> ngx_quic_connection_t" where
  "ngx_quic_handle_new_connection_id_frame qc lvl f =
     (case ngx_quic_new_connection_id_add qc lvl f of
        (NGX_OK, qc1) \<Rightarrow>
          (case ngx_quic_new_connection_id_retire qc1 lvl f of
             (NGX_OK, qc2) \<Rightarrow>
               if nclient_ids qc2 > active_connection_id_limit (tp qc2)
               then (NGX_ERROR,
                     qc2\<lparr>error := NGX_QUIC_ERR_CONNECTION_ID_LIMIT_ERROR,
                         error_reason := ''too many connection ids received''\<rparr>)
               else (NGX_OK, qc2)
           | (rc, qc2) \<Rightarrow> (NGX_ERROR, qc2))
      | (rc, qc1) \<Rightarrow> (NGX_ERROR, qc1))"

text \<open>
  The frame is new to the connection, or repeats the entry that has its sequence number.
\<close>

definition cid_frame_consistent ::
  "ngx_quic_connection_t \<Rightarrow> ngx_quic_new_conn_id_frame_t \<Rightarrow> bool" where
  "cid_frame_consistent qc f =
     (case find (\<lambda>item. cid_seqnum item = nc_seqnum f) (client_ids qc) of
        None \<Rightarrow> True
      | Some cid \<Rightarrow> cid_id cid = nc_cid f \<and> cid_sr_token cid = nc_srt f)"

text \<open>
  Sample input: a connection that advertised the limit 4 to a client that advertised the
  limit 2, and two frames of the client.
\<close>

definition cid_conn :: ngx_quic_connection_t where
  "cid_conn = ngx_quic_new_connection (sample_tp\<lparr>active_connection_id_limit := 4\<rparr>) sample_tp
                1000 [1, 2, 3, 4, 5, 6, 7, 8] 64"

definition cid_frame :: "u64 \<Rightarrow> ngx_quic_new_conn_id_frame_t" where
  "cid_frame n = \<lparr>nc_seqnum = n, nc_retire = 0, nc_cid = [ucast n, 7, 7, 7, 7, 7, 7, 7],
                  nc_srt = replicate 16 (ucast n)\<rparr>"

definition cid_conn2 :: ngx_quic_connection_t where
  "cid_conn2 = snd (ngx_quic_handle_new_connection_id_frame cid_conn
                      ssl_encryption_application (cid_frame 1))"

section \<open>Stateless reset: ngx_quic_send_stateless_reset\<close>

text \<open>
  The bits \<^verbatim>\<open>NGX_QUIC_PKT_LONG\<close> and \<^verbatim>\<open>NGX_QUIC_PKT_FIXED_BIT\<close> of the first byte of a packet.
  The header that defines them is not part of the file; the values are the ones of the
  wire protocol.
\<close>

definition NGX_QUIC_PKT_LONG :: u8 where "NGX_QUIC_PKT_LONG = 0x80"

definition NGX_QUIC_PKT_FIXED_BIT :: u8 where "NGX_QUIC_PKT_FIXED_BIT = 0x40"

text \<open>
  \<^verbatim>\<open>ngx_quic_send_stateless_reset\<close>. The environment is given by four arguments:
  \<open>rndbytes\<close> is what the first call of \<^verbatim>\<open>RAND_bytes\<close> stores in the 16-bit variable,
  \<open>rand_buf\<close> the bytes that the second call stores in the buffer, by position, and
  \<open>new_sr_token\<close> the 16 bytes that \<^verbatim>\<open>ngx_quic_new_sr_token\<close> derives from a connection
  identifier and the key, by position; each is \<open>None\<close> when the call fails. \<open>key\<close> is
  \<^verbatim>\<open>conf->sr_token_key\<close>. The result carries the datagram handed to \<^verbatim>\<open>c->send\<close>, if any.
\<close>

definition ngx_quic_send_stateless_reset ::
  "u16 option \<Rightarrow> (nat \<Rightarrow> u8) option \<Rightarrow> (u8 list \<Rightarrow> u8 list \<Rightarrow> (nat \<Rightarrow> u8) option)
   \<Rightarrow> u8 list \<Rightarrow> ngx_quic_header_t \<Rightarrow> ngx_int_t \<times> u8 list option" where
  "ngx_quic_send_stateless_reset rndbytes rand_buf new_sr_token key pkt =
     (if length key = 0 then (NGX_DECLINED, None)
      else if pkt_len pkt \<le> NGX_QUIC_MIN_PKT_LEN then (NGX_DECLINED, None)
      else
        (case (if pkt_len pkt \<le> NGX_QUIC_MIN_SR_PACKET then Some (pkt_len pkt - 1)
               else
                 (let mx = min NGX_QUIC_MAX_SR_PACKET (pkt_len pkt * 3)
                  in case rndbytes of
                       None \<Rightarrow> None
                     | Some r \<Rightarrow>
                         Some (unat r mod (mx - NGX_QUIC_MIN_SR_PACKET + 1)
                               + NGX_QUIC_MIN_SR_PACKET))) of
           None \<Rightarrow> (NGX_ERROR, None)
         | Some len \<Rightarrow>
             (case rand_buf of
                None \<Rightarrow> (NGX_ERROR, None)
              | Some rb \<Rightarrow>
                  (let buf = map rb [0..<len - NGX_QUIC_SR_TOKEN_LEN];
                       buf1 = buf[0 := (buf ! 0) AND NOT NGX_QUIC_PKT_LONG];
                       buf2 = buf1[0 := (buf1 ! 0) OR NGX_QUIC_PKT_FIXED_BIT]
                   in case new_sr_token (pkt_dcid pkt) key of
                        None \<Rightarrow> (NGX_ERROR, None)
                      | Some token \<Rightarrow>
                          (NGX_DECLINED,
                           Some (buf2 @ map token [0..<NGX_QUIC_SR_TOKEN_LEN]))))))"

text \<open>Sample input: a short-header packet of \<open>n\<close> bytes for an unknown connection.\<close>

definition sr_pkt :: "nat \<Rightarrow> ngx_quic_header_t" where
  "sr_pkt n = (sample_pkt 0 False)\<lparr>pkt_len := n, pkt_dcid := [9, 9, 9, 9]\<rparr>"

definition sr_token :: "u8 list \<Rightarrow> u8 list \<Rightarrow> (nat \<Rightarrow> u8) option" where
  "sr_token dcid key = Some (\<lambda>i. hd dcid + hd key + of_nat i)"

section \<open>Ordered frames: the CRYPTO reassembly buffer\<close>

text \<open>
  The member \<^verbatim>\<open>u.ord\<close> of a frame (\<^verbatim>\<open>u.crypto\<close> has the same layout), and a write to it.
\<close>

definition f_offset :: "ngx_quic_frame_t \<Rightarrow> u64" where
  "f_offset frame = ord_offset (f_u frame)"

definition f_length :: "ngx_quic_frame_t \<Rightarrow> u64" where
  "f_length frame = ord_length (f_u frame)"

text \<open>
  \<^verbatim>\<open>ngx_quic_adjust_frame_offset\<close>: the frame is returned because it is changed in place.
\<close>

definition ngx_quic_adjust_frame_offset ::
  "ngx_quic_frame_t \<Rightarrow> u64 \<Rightarrow> ngx_int_t \<times> ngx_quic_frame_t" where
  "ngx_quic_adjust_frame_offset frame offset_in =
     (let tail = offset_in - f_offset frame
      in if tail \<ge> f_length frame then (NGX_DONE, frame)
         else (NGX_OK,
               frame\<lparr>f_u := U_ORD (f_offset frame + tail) (f_length frame - tail)
                                 (drop (unat tail) (ord_data (f_u frame)))\<rparr>))"

text \<open>
  The search of \<^verbatim>\<open>ngx_quic_buffer_frame\<close> for the place of the copy \<open>dst\<close>, on the queue
  read from its tail: after the first item met whose offset is below that of \<open>dst\<close>, or at
  the head of the queue when there is none.
\<close>

fun ngx_quic_buffer_insert ::
  "ngx_quic_frame_t \<Rightarrow> ngx_quic_frame_t list \<Rightarrow> ngx_quic_frame_t list" where
  "ngx_quic_buffer_insert dst [] = [dst]"
| "ngx_quic_buffer_insert dst (item # before) =
     (if f_offset item < f_offset dst then dst # item # before
      else item # ngx_quic_buffer_insert dst before)"

text \<open>
  \<^verbatim>\<open>ngx_quic_buffer_frame\<close> on the stream \<open>fs\<close>: the copy has a data buffer of its own when
  the length is not zero.
\<close>

definition ngx_quic_buffer_frame ::
  "ngx_quic_connection_t \<Rightarrow> ngx_quic_frames_stream_t \<Rightarrow> ngx_quic_frame_t
   \<Rightarrow> ngx_int_t \<times> ngx_quic_frames_stream_t \<times> ngx_quic_connection_t" where
  "ngx_quic_buffer_frame qc fs frame =
     (case ngx_quic_alloc_frame qc (unat (f_length frame)) of
        (False, qc1) \<Rightarrow> (NGX_ERROR, fs, qc1)
      | (True, qc1) \<Rightarrow>
          (let dst = frame\<lparr>f_data := (f_length frame \<noteq> 0)\<rparr>;
               fs1 = fs\<lparr>fs_total := fs_total fs + f_length frame\<rparr>
           in (NGX_OK,
               fs1\<lparr>fs_frames := rev (ngx_quic_buffer_insert dst (rev (fs_frames fs1)))\<rparr>,
               qc1)))"

text \<open>
  The loop of \<^verbatim>\<open>ngx_quic_handle_ordered_frame\<close> over the buffered frames. The handler is a
  function pointer: here a function from the connection and the frame to its result and
  the connection; it does not touch the stream \<open>fs\<close>, which the loop holds as
  \<open>received\<close>, \<open>ftotal\<close> and the queue.
\<close>

fun ngx_quic_handle_ordered_loop ::
  "(ngx_quic_connection_t \<Rightarrow> ngx_quic_frame_t \<Rightarrow> ngx_int_t \<times> ngx_quic_connection_t)
   \<Rightarrow> ngx_quic_connection_t \<Rightarrow> u64 \<Rightarrow> u64 \<Rightarrow> ngx_quic_frame_t list
   \<Rightarrow> ngx_int_t \<times> ngx_quic_frames_stream_t \<times> ngx_quic_connection_t" where
  "ngx_quic_handle_ordered_loop handler qc received ftotal [] =
     (NGX_OK, \<lparr>fs_received = received, fs_frames = [], fs_total = ftotal\<rparr>, qc)"
| "ngx_quic_handle_ordered_loop handler qc received ftotal (frame # rest) =
     (if f_offset frame > received
      then (NGX_OK, \<lparr>fs_received = received, fs_frames = frame # rest, fs_total = ftotal\<rparr>, qc)
      else
        (let full_len = f_length frame;
             (rc0, frame1) = (if f_offset frame < received
                              then ngx_quic_adjust_frame_offset frame received
                              else (NGX_OK, frame))
         in if rc0 = NGX_DONE
            then ngx_quic_handle_ordered_loop handler (ngx_quic_free_frame qc frame1) received
                   (ftotal - f_length frame1) rest
            else
              (case handler qc frame1 of
                 (NGX_ERROR, qc1) \<Rightarrow>
                   (NGX_ERROR,
                    \<lparr>fs_received = received, fs_frames = frame1 # rest, fs_total = ftotal\<rparr>, qc1)
               | (NGX_DONE, qc1) \<Rightarrow>
                   (NGX_OK,
                    \<lparr>fs_received = received, fs_frames = frame1 # rest, fs_total = ftotal\<rparr>, qc1)
               | (rc, qc1) \<Rightarrow>
                   ngx_quic_handle_ordered_loop handler (ngx_quic_free_frame qc1 frame1)
                     (received + f_length frame1) (ftotal - full_len) rest)))"

text \<open>
  \<^verbatim>\<open>ngx_quic_handle_ordered_frame\<close>; \<open>is_crypto\<close> tells whether the handler is
  \<^verbatim>\<open>ngx_quic_crypto_input\<close>.
\<close>

definition ngx_quic_handle_ordered_frame ::
  "(ngx_quic_connection_t \<Rightarrow> ngx_quic_frame_t \<Rightarrow> ngx_int_t \<times> ngx_quic_connection_t)
   \<Rightarrow> bool \<Rightarrow> ngx_quic_connection_t \<Rightarrow> ngx_quic_frames_stream_t \<Rightarrow> ngx_quic_frame_t
   \<Rightarrow> ngx_int_t \<times> ngx_quic_frames_stream_t \<times> ngx_quic_connection_t" where
  "ngx_quic_handle_ordered_frame handler is_crypto qc fs frame =
     (if f_offset frame > fs_received fs then ngx_quic_buffer_frame qc fs frame
      else
        (let (rc0, frame1) = (if f_offset frame < fs_received fs
                              then ngx_quic_adjust_frame_offset frame (fs_received fs)
                              else (NGX_OK, frame))
         in if rc0 = NGX_DONE then (if is_crypto then NGX_DECLINED else NGX_OK, fs, qc)
            else
              (case handler qc frame1 of
                 (NGX_ERROR, qc1) \<Rightarrow> (NGX_ERROR, fs, qc1)
               | (NGX_DONE, qc1) \<Rightarrow> (NGX_OK, fs, qc1)
               | (rc, qc1) \<Rightarrow>
                   ngx_quic_handle_ordered_loop handler qc1
                     (fs_received fs + f_length frame1) (fs_total fs) (fs_frames fs))))"

text \<open>
  \<^verbatim>\<open>ngx_quic_handle_crypto_frame\<close> for a packet of level \<open>pkt_level pkt\<close>. The handler
  stands for \<^verbatim>\<open>ngx_quic_crypto_input\<close>, which runs the TLS library, and \<open>resend\<close> for
  \<^verbatim>\<open>ngx_quic_resend_frames\<close> on the send context of the level; neither touches the
  reassembly streams.
\<close>

definition ngx_quic_handle_crypto_frame ::
  "(ngx_quic_connection_t \<Rightarrow> ngx_quic_frame_t \<Rightarrow> ngx_int_t \<times> ngx_quic_connection_t)
   \<Rightarrow> (ngx_quic_connection_t \<Rightarrow> nat \<Rightarrow> ngx_quic_connection_t)
   \<Rightarrow> ngx_quic_connection_t \<Rightarrow> ngx_quic_header_t \<Rightarrow> ngx_quic_frame_t
   \<Rightarrow> ngx_int_t \<times> ngx_quic_connection_t" where
  "ngx_quic_handle_crypto_frame handler resend qc pkt frame =
     (let fs = crypto qc (pkt_level pkt);
          last = f_offset frame + f_length frame
      in if last > fs_received fs \<and> last - fs_received fs > NGX_QUIC_MAX_BUFFERED
         then (NGX_ERROR, qc\<lparr>error := NGX_QUIC_ERR_CRYPTO_BUFFER_EXCEEDED\<rparr>)
         else
           (case ngx_quic_handle_ordered_frame handler True qc fs frame of
              (rc, fs1, qc1) \<Rightarrow>
                (let qc2 = qc1\<lparr>crypto := (crypto qc1)(pkt_level pkt := fs1)\<rparr>
                 in if rc \<noteq> NGX_DECLINED then (rc, qc2)
                    else if pkt_level pkt = ssl_encryption_initial
                            \<and> sent (send_ctx qc2 (ngx_quic_get_send_ctx (pkt_level pkt))) \<noteq> []
                    then (NGX_OK, resend qc2 (ngx_quic_get_send_ctx (pkt_level pkt)))
                    else (NGX_OK, qc2))))"

text \<open>The queue of a reassembly stream is in offset order.\<close>

definition offset_ordered :: "ngx_quic_frame_t list \<Rightarrow> bool" where
  "offset_ordered fl = sorted (map (\<lambda>frame. unat (f_offset frame)) fl)"

text \<open>
  Sample input: CRYPTO frames of a given offset and length in an Initial packet, and a
  handler that accepts every frame.
\<close>

definition crypto_frame :: "u64 \<Rightarrow> u64 \<Rightarrow> ngx_quic_frame_t" where
  "crypto_frame off len = zero_frame\<lparr>f_type := NGX_QUIC_FT_CRYPTO, f_u := U_ORD off len (replicate (unat len) 0)\<rparr>"

definition crypto_pkt :: ngx_quic_header_t where
  "crypto_pkt = (sample_pkt 0 True)\<lparr>pkt_level := ssl_encryption_initial\<rparr>"

definition accept_all ::
  "ngx_quic_connection_t \<Rightarrow> ngx_quic_frame_t \<Rightarrow> ngx_int_t \<times> ngx_quic_connection_t" where
  "accept_all qc frame = (NGX_OK, qc)"

definition no_resend :: "ngx_quic_connection_t \<Rightarrow> nat \<Rightarrow> ngx_quic_connection_t" where
  "no_resend qc k = qc"

definition crypto_conn2 :: ngx_quic_connection_t where
  "crypto_conn2 = snd (ngx_quic_handle_crypto_frame accept_all no_resend sample_conn crypto_pkt
                         (crypto_frame 1 40000))"

section \<open>Verification: packet number truncation\<close>

lemma ceiling_log2_div8_le:
  "(\<lceil>log 2 (real d + 1) / 8\<rceil> \<le> int n) = (d < 2 ^ (8 * n))"
proof -
  have "(\<lceil>log 2 (real d + 1) / 8\<rceil> \<le> int n) = (log 2 (real d + 1) / 8 \<le> real n)"
    by (simp add: ceiling_le_iff)
  also have "\<dots> = (log 2 (real d + 1) \<le> real (8 * n))"
    by (auto simp: field_simps)
  also have "\<dots> = (real d + 1 \<le> 2 powr real (8 * n))"
    by (subst log_le_iff) auto
  also have "\<dots> = (real d + 1 \<le> 2 ^ (8 * n))"
    by (simp only: powr_realpow zero_less_numeral)
  also have "\<dots> = (real (d + 1) \<le> real ((2::nat) ^ (8 * n)))"
    by (simp add: add.commute)
  also have "\<dots> = (d + 1 \<le> 2 ^ (8 * n))"
    by (subst of_nat_le_iff) simp
  finally show ?thesis by auto
qed

lemma ceiling_log2_succ_div8_le:
  assumes "1 \<le> n"
  shows "(\<lceil>(log 2 (real d + 1) + 1) / 8\<rceil> \<le> int n) = (d < 2 ^ (8 * n - 1))"
proof -
  have "(\<lceil>(log 2 (real d + 1) + 1) / 8\<rceil> \<le> int n)
        = ((log 2 (real d + 1) + 1) / 8 \<le> real n)"
    by (simp add: ceiling_le_iff)
  also have "\<dots> = (log 2 (real d + 1) \<le> real (8 * n - 1))"
    using assms by (auto simp: field_simps of_nat_diff)
  also have "\<dots> = (real d + 1 \<le> 2 powr real (8 * n - 1))"
    by (subst log_le_iff) auto
  also have "\<dots> = (real d + 1 \<le> 2 ^ (8 * n - 1))"
    by (simp only: powr_realpow zero_less_numeral)
  also have "\<dots> = (real (d + 1) \<le> real ((2::nat) ^ (8 * n - 1)))"
    by (simp add: add.commute)
  also have "\<dots> = (d + 1 \<le> 2 ^ (8 * n - 1))"
    by (subst of_nat_le_iff) simp
  finally show ?thesis by auto
qed

lemma code_num_len_cases:
  "code_num_len d =
     (if d < 2 ^ 7 then 1 else if d < 2 ^ 15 then 2 else if d < 2 ^ 23 then 3 else 4)"
proof -
  define c where "c = \<lceil>(log 2 (real d + 1) + 1) / 8\<rceil>"
  have 1: "(c \<le> 1) = (d < 2 ^ 7)" and 2: "(c \<le> 2) = (d < 2 ^ 15)"
    and 3: "(c \<le> 3) = (d < 2 ^ 23)"
    using ceiling_log2_succ_div8_le [of 1 d] ceiling_log2_succ_div8_le [of 2 d]
      ceiling_log2_succ_div8_le [of 3 d]
    by (simp_all add: c_def)
  have "min 4 (max 1 c) = (if c \<le> 1 then 1 else if c \<le> 2 then 2 else if c \<le> 3 then 3 else 4)"
    by auto
  then show ?thesis
    unfolding code_num_len_def c_def [symmetric] 1 2 3 .
qed

lemma spec_num_len_128: "spec_num_len 128 = 1"
  using ceiling_log2_div8_le [of 128 1] by (simp add: spec_num_len_def)

lemma set_packet_number_num_len:
  "int (pkt_num_len (ngx_quic_set_packet_number pkt ctx))
     = code_num_len (unat (pnum ctx - largest_ack ctx))"
  unfolding code_num_len_cases
  by (simp add: ngx_quic_set_packet_number_def Let_def word_le_nat_alt)

lemma set_packet_number_flags:
  "pkt_flags pkt AND 3 = 0 \<Longrightarrow>
   pkt_flags (ngx_quic_set_packet_number pkt ctx) AND 3
     = of_nat (pkt_num_len (ngx_quic_set_packet_number pkt ctx) - 1)"
  by (auto simp: ngx_quic_set_packet_number_def Let_def bit.conj_disj_distrib2)

text \<open>
  C3, as stated, fails: for a delta of 128 the formula of the specification gives one byte
  and the code chooses two; and with the largest acknowledged number unset, the first
  packet (number 0) is sent with a one-byte packet number, not four bytes.
\<close>

theorem C3_counterexample:
  "int (pkt_num_len (ngx_quic_set_packet_number
          \<lparr>pkt_flags = 0x40, pkt_number = 0, pkt_num_len = 0, pkt_trunc = 0,
           pkt_level = ssl_encryption_application, pkt_pn = 0, pkt_need_ack = False,
           pkt_received = 0, pkt_len = 0, pkt_dcid = []\<rparr>
          \<lparr>level = ssl_encryption_application, pnum = 128, largest_ack = 0, largest_pn = 0,
           frames = [], sent = [], pending_ack = NGX_QUIC_UNSET_PN,
           largest_range = NGX_QUIC_UNSET_PN, first_range = 0, largest_received = 0,
           ack_delay_start = 0, ranges = [], send_ack = 0\<rparr>))
     \<noteq> spec_num_len (unat (128 - 0 :: u64))
   \<and> pkt_num_len (ngx_quic_set_packet_number
          \<lparr>pkt_flags = 0x40, pkt_number = 0, pkt_num_len = 0, pkt_trunc = 0,
           pkt_level = ssl_encryption_application, pkt_pn = 0, pkt_need_ack = False,
           pkt_received = 0, pkt_len = 0, pkt_dcid = []\<rparr>
          \<lparr>level = ssl_encryption_application, pnum = 0, largest_ack = NGX_QUIC_UNSET_PN,
           largest_pn = 0, frames = [], sent = [], pending_ack = NGX_QUIC_UNSET_PN,
           largest_range = NGX_QUIC_UNSET_PN, first_range = 0, largest_received = 0,
           ack_delay_start = 0, ranges = [], send_ack = 0\<rparr>)
     \<noteq> 4"
  by (simp add: spec_num_len_128 ngx_quic_set_packet_number_def NGX_QUIC_UNSET_PN_def)

text \<open>
  C3, amended: with delta the 64-bit difference between the next packet number and the
  largest acknowledged one (so delta is the next packet number plus one, modulo
  \<open>2 ^ 64\<close>, while the latter is unset), the length is
  \<open>min 4 (max 1 \<lceil>(log\<^sub>2 (delta + 1) + 1) / 8\<rceil>)\<close> bytes, which is one of 1, 2, 3, 4;
  and when the two low flag bits were clear before, they hold the length minus one
  afterwards.
\<close>

theorem C3_set_packet_number:
  "int (pkt_num_len (ngx_quic_set_packet_number pkt ctx))
     = code_num_len (unat (pnum ctx - largest_ack ctx))
   \<and> pkt_num_len (ngx_quic_set_packet_number pkt ctx) \<in> {1, 2, 3, 4}
   \<and> (largest_ack ctx = NGX_QUIC_UNSET_PN \<longrightarrow> pnum ctx - largest_ack ctx = pnum ctx + 1)
   \<and> (pkt_flags pkt AND 3 = 0 \<longrightarrow>
        pkt_flags (ngx_quic_set_packet_number pkt ctx) AND 3
          = of_nat (pkt_num_len (ngx_quic_set_packet_number pkt ctx) - 1))"
proof (intro conjI impI)
  show "int (pkt_num_len (ngx_quic_set_packet_number pkt ctx))
          = code_num_len (unat (pnum ctx - largest_ack ctx))"
    by (rule set_packet_number_num_len)
  show "pkt_num_len (ngx_quic_set_packet_number pkt ctx) \<in> {1, 2, 3, 4}"
    by (simp add: ngx_quic_set_packet_number_def Let_def)
  show "pnum ctx - largest_ack ctx = pnum ctx + 1" if "largest_ack ctx = NGX_QUIC_UNSET_PN"
    using that by (simp add: NGX_QUIC_UNSET_PN_def)
  show "pkt_flags (ngx_quic_set_packet_number pkt ctx) AND 3
          = of_nat (pkt_num_len (ngx_quic_set_packet_number pkt ctx) - 1)"
    if "pkt_flags pkt AND 3 = 0"
    using that by (rule set_packet_number_flags)
qed

theorem C3_set_packet_number_witness:
  "largest_ack \<lparr>level = ssl_encryption_application, pnum = 70000,
       largest_ack = NGX_QUIC_UNSET_PN, largest_pn = 0, frames = [], sent = [],
       pending_ack = NGX_QUIC_UNSET_PN, largest_range = NGX_QUIC_UNSET_PN, first_range = 0,
       largest_received = 0, ack_delay_start = 0, ranges = [], send_ack = 0\<rparr>
     = NGX_QUIC_UNSET_PN
   \<and> pkt_flags \<lparr>pkt_flags = 0x40, pkt_number = 0, pkt_num_len = 0, pkt_trunc = 0,
       pkt_level = ssl_encryption_application, pkt_pn = 0, pkt_need_ack = False,
       pkt_received = 0, pkt_len = 0, pkt_dcid = []\<rparr> AND 3 = 0
   \<and> pkt_flags (ngx_quic_set_packet_number
        \<lparr>pkt_flags = 0x40, pkt_number = 0, pkt_num_len = 0, pkt_trunc = 0,
         pkt_level = ssl_encryption_application, pkt_pn = 0, pkt_need_ack = False,
         pkt_received = 0, pkt_len = 0, pkt_dcid = []\<rparr>
        \<lparr>level = ssl_encryption_application, pnum = 70000,
         largest_ack = NGX_QUIC_UNSET_PN, largest_pn = 0, frames = [], sent = [],
         pending_ack = NGX_QUIC_UNSET_PN, largest_range = NGX_QUIC_UNSET_PN, first_range = 0,
         largest_received = 0, ack_delay_start = 0, ranges = [], send_ack = 0\<rparr>) AND 3 = 2
   \<and> code_num_len 70001 = 3"
  using C3_set_packet_number
    [of "\<lparr>pkt_flags = 0x40, pkt_number = 0, pkt_num_len = 0, pkt_trunc = 0,
         pkt_level = ssl_encryption_application, pkt_pn = 0, pkt_need_ack = False,
         pkt_received = 0, pkt_len = 0, pkt_dcid = []\<rparr>"
        "\<lparr>level = ssl_encryption_application, pnum = 70000,
         largest_ack = NGX_QUIC_UNSET_PN, largest_pn = 0, frames = [], sent = [],
         pending_ack = NGX_QUIC_UNSET_PN, largest_range = NGX_QUIC_UNSET_PN, first_range = 0,
         largest_received = 0, ack_delay_start = 0, ranges = [], send_ack = 0\<rparr>"]
  by (simp add: ngx_quic_set_packet_number_def NGX_QUIC_UNSET_PN_def)

section \<open>Verification: the ACK accumulator\<close>

subsection \<open>Chains of ranges\<close>

lemma fits_lo_hi: "fits sm r \<Longrightarrow> lo_of sm r \<le> hi_of sm r \<and> hi_of sm r + 2 \<le> sm"
  unfolding fits_def lo_of_def hi_of_def by linarith

lemma chain_ok_append:
  "chain_ok sm (xs @ ys) = (chain_ok sm xs \<and> chain_ok (chain_end sm xs) ys)"
  by (induction xs arbitrary: sm) auto

lemma chain_end_append: "chain_end sm (xs @ ys) = chain_end (chain_end sm xs) ys"
  by (induction xs arbitrary: sm) auto

lemma chain_pns_append:
  "chain_pns sm (xs @ ys) = chain_pns sm xs \<union> chain_pns (chain_end sm xs) ys"
  by (induction xs arbitrary: sm) auto

lemma chain_end_le: "chain_ok sm xs \<Longrightarrow> chain_end sm xs \<le> sm"
proof (induction xs arbitrary: sm)
  case Nil then show ?case by simp
next
  case (Cons r rs)
  then have "chain_end (lo_of sm r) rs \<le> lo_of sm r" by simp
  moreover have "lo_of sm r \<le> sm" by (simp add: lo_of_def)
  ultimately show ?case by simp
qed

lemma chain_pns_bounds:
  "chain_ok sm xs \<Longrightarrow> x \<in> chain_pns sm xs \<Longrightarrow> chain_end sm xs \<le> x \<and> x + 2 \<le> sm"
proof (induction xs arbitrary: sm)
  case Nil then show ?case by simp
next
  case (Cons r rs)
  from Cons.prems have ok: "fits sm r" "chain_ok (lo_of sm r) rs" by auto
  note lh = fits_lo_hi[OF ok(1)]
  from Cons.prems(2) have "x \<in> {lo_of sm r .. hi_of sm r} \<or> x \<in> chain_pns (lo_of sm r) rs"
    by simp
  then show ?case
  proof
    assume "x \<in> {lo_of sm r .. hi_of sm r}"
    with lh chain_end_le[OF ok(2)] show ?thesis by simp
  next
    assume "x \<in> chain_pns (lo_of sm r) rs"
    from Cons.IH[OF ok(2) this] lh show ?thesis by simp
  qed
qed

lemma chain_pns_Cons_top:
  assumes "chain_ok sm (r # rs)"
  shows "hi_of sm r \<in> chain_pns sm (r # rs)"
  using assms fits_lo_hi[of sm r] by simp

lemma chain_pns_Cons_le:
  assumes "chain_ok sm (r # rs)" and "x \<in> chain_pns sm (r # rs)"
  shows "x \<le> hi_of sm r"
proof -
  from assms(1) have ok: "fits sm r" "chain_ok (lo_of sm r) rs" by auto
  from assms(2) have "x \<in> {lo_of sm r .. hi_of sm r} \<or> x \<in> chain_pns (lo_of sm r) rs" by simp
  then show ?thesis
  proof
    assume "x \<in> {lo_of sm r .. hi_of sm r}" then show ?thesis by simp
  next
    assume "x \<in> chain_pns (lo_of sm r) rs"
    from chain_pns_bounds[OF ok(2) this] fits_lo_hi[OF ok(1)] show ?thesis by simp
  qed
qed

lemma chain_pns_tail_eq:
  assumes "chain_ok lo rs"
  shows "chain_pns lo rs = ({lo .. hi} \<union> chain_pns lo rs) - {lo .. hi}"
proof -
  have "\<And>x. x \<in> chain_pns lo rs \<Longrightarrow> x \<notin> {lo .. hi}"
    using chain_pns_bounds[OF assms] by fastforce
  then show ?thesis by blast
qed

lemma range_eq_of_unat:
  "unat (gap a) = unat (gap b) \<Longrightarrow> unat (range' a) = unat (range' b)
   \<Longrightarrow> (a :: ngx_quic_ack_range_t) = b"
  by (cases a, cases b) (simp add: word_unat_eq_iff)

lemma chain_canonical:
  "chain_ok sm xs \<Longrightarrow> chain_ok sm ys \<Longrightarrow> chain_pns sm xs = chain_pns sm ys \<Longrightarrow> xs = ys"
proof (induction xs arbitrary: sm ys)
  case Nil
  show ?case
  proof (cases ys)
    case Nil then show ?thesis by simp
  next
    case (Cons r rs)
    with Nil.prems chain_pns_Cons_top[of sm r rs] show ?thesis by auto
  qed
next
  case (Cons a as)
  show ?case
  proof (cases ys)
    case Nil
    with Cons.prems chain_pns_Cons_top[of sm a as] show ?thesis by auto
  next
    case (Cons b bs)
    define la where "la = lo_of sm a"
    define lb where "lb = lo_of sm b"
    define ha where "ha = hi_of sm a"
    define hb where "hb = hi_of sm b"
    have okb': "chain_ok sm (b # bs)" using Cons.prems(2) Cons by simp
    from Cons.prems(1) have oka: "fits sm a" "chain_ok la as" by (auto simp: la_def)
    from okb' have okb: "fits sm b" "chain_ok lb bs" by (auto simp: lb_def)
    have lha: "la \<le> ha" "ha + 2 \<le> sm" using fits_lo_hi[OF oka(1)] by (simp_all add: la_def ha_def)
    have lhb: "lb \<le> hb" "hb + 2 \<le> sm" using fits_lo_hi[OF okb(1)] by (simp_all add: lb_def hb_def)
    have S: "chain_pns sm (a # as) = chain_pns sm (b # bs)" using Cons.prems(3) Cons by simp
    have Sa: "chain_pns sm (a # as) = {la .. ha} \<union> chain_pns la as"
      by (simp add: la_def ha_def)
    have Sb: "chain_pns sm (b # bs) = {lb .. hb} \<union> chain_pns lb bs"
      by (simp add: lb_def hb_def)
    have ta: "ha \<in> chain_pns sm (a # as)"
      using chain_pns_Cons_top[OF Cons.prems(1)] by (simp only: ha_def)
    have tb: "hb \<in> chain_pns sm (b # bs)"
      using chain_pns_Cons_top[OF okb'] by (simp only: hb_def)
    have "ha \<in> chain_pns sm (b # bs)" using ta by (simp only: S)
    from chain_pns_Cons_le[OF okb' this]
    have "ha \<le> hb" by (simp only: hb_def)
    moreover
    have "hb \<in> chain_pns sm (a # as)" using tb by (simp only: S)
    from chain_pns_Cons_le[OF Cons.prems(1) this]
    have "hb \<le> ha" by (simp only: ha_def)
    ultimately have h: "ha = hb" by simp
    have belowa: "\<And>x. x \<in> chain_pns la as \<Longrightarrow> x + 2 \<le> la"
      using chain_pns_bounds[OF oka(2)] by blast
    have belowb: "\<And>x. x \<in> chain_pns lb bs \<Longrightarrow> x + 2 \<le> lb"
      using chain_pns_bounds[OF okb(2)] by blast
    have l: "la = lb"
    proof (rule ccontr)
      assume ne: "la \<noteq> lb"
      show False
      proof (cases "la < lb")
        case True
        have "lb - 1 \<in> {la .. ha}"
          using True lhb h unfolding atLeastAtMost_iff by linarith
        then have "lb - 1 \<in> chain_pns sm (b # bs)" using S Sa by blast
        then have "lb - 1 \<in> {lb .. hb} \<or> lb - 1 \<in> chain_pns lb bs" using Sb by blast
        then show False using belowb[of "lb - 1"] True by auto
      next
        case False
        with ne have lt: "lb < la" by simp
        have "la - 1 \<in> {lb .. hb}"
          using lt lha h unfolding atLeastAtMost_iff by linarith
        then have "la - 1 \<in> chain_pns sm (a # as)" using S Sb by blast
        then have "la - 1 \<in> {la .. ha} \<or> la - 1 \<in> chain_pns la as" using Sa by blast
        then show False using belowa[of "la - 1"] lt by auto
      qed
    qed
    have g: "unat (gap a) = unat (gap b)"
      using h oka(1) okb(1) unfolding ha_def hb_def hi_of_def fits_def by linarith
    have rr: "unat (range' a) = unat (range' b)"
      using l g oka(1) okb(1) unfolding la_def lb_def lo_of_def fits_def by linarith
    have ab: "a = b" using g rr by (rule range_eq_of_unat)
    have "chain_pns la as = chain_pns la bs"
      using chain_pns_tail_eq[OF oka(2), of ha] chain_pns_tail_eq[OF okb(2), of hb]
        S Sa Sb l h by simp
    then have "as = bs" using Cons.IH[OF oka(2)] okb(2) l by simp
    with ab Cons show ?thesis by simp
  qed
qed

lemma chain_replace:
  assumes "chain_ok sm (A @ M @ B)"
    and "chain_ok (chain_end sm A) M'"
    and "chain_end (chain_end sm A) M' = chain_end (chain_end sm A) M"
  shows "chain_ok sm (A @ M' @ B)"
    and "chain_pns sm (A @ M' @ B) = chain_pns sm A \<union> chain_pns (chain_end sm A) M' \<union> chain_pns (chain_end sm (A @ M)) B"
  using assms by (simp_all add: chain_ok_append chain_end_append chain_pns_append Un_assoc)

subsection \<open>Word arithmetic without wrap-around\<close>

lemma u64_lt: "unat (x :: u64) < 18446744073709551616"
  using unsigned_less[of x, where ?'a=nat] by simp

lemma unat_sub_le: "unat (b :: u64) \<le> unat a \<Longrightarrow> unat (a - b) = unat a - unat b"
  by (simp add: unat_sub word_le_nat_alt)

lemma unat_add_small: "unat (a :: u64) + unat b < 18446744073709551616 \<Longrightarrow> unat (a + b) = unat a + unat b"
  using unat_add_lem[of a b] by simp

lemma unat_sub1: "1 \<le> unat (a :: u64) \<Longrightarrow> unat (a - 1) = unat a - 1"
  using unat_sub_le[of 1 a] by simp

lemma unat_sub2: "2 \<le> unat (a :: u64) \<Longrightarrow> unat (a - 2) = unat a - 2"
  using unat_sub_le[of 2 a] by simp

lemma unat_add1: "unat (a :: u64) + 1 < 18446744073709551616 \<Longrightarrow> unat (a + 1) = unat a + 1"
  using unat_add_small[of a 1] by simp

lemma unat_add2: "unat (a :: u64) + 2 < 18446744073709551616 \<Longrightarrow> unat (a + 2) = unat a + 2"
  using unat_add_small[of a 2] by simp

lemma gap_bounds:
  fixes smallest g rr :: u64
  assumes "unat g + unat rr + 2 \<le> unat smallest"
  shows "unat (smallest - 1) = unat smallest - 1"
    and "unat (smallest - 1 - g) = unat smallest - 1 - unat g"
    and "unat (smallest - g - 2) = unat smallest - unat g - 2"
    and "unat (smallest - g - 2 - rr) = unat smallest - unat g - 2 - unat rr"
proof -
  show 1: "unat (smallest - 1) = unat smallest - 1" using assms by (simp add: unat_sub1)
  show "unat (smallest - 1 - g) = unat smallest - 1 - unat g"
    using assms 1 by (simp add: unat_sub_le)
  have 2: "unat (smallest - g) = unat smallest - unat g" using assms by (simp add: unat_sub_le)
  show 3: "unat (smallest - g - 2) = unat smallest - unat g - 2"
    using assms 2 by (simp add: unat_sub2)
  show "unat (smallest - g - 2 - rr) = unat smallest - unat g - 2 - unat rr"
    using assms 3 by (simp add: unat_sub_le)
qed

subsection \<open>The effect of each branch on two neighbouring entries\<close>

lemma entry_pos:
  assumes "fits sm x"
  shows "hi_of sm x + unat (gap x) + 2 = sm" and "lo_of sm x + unat (range' x) = hi_of sm x"
  using assms unfolding fits_def hi_of_def lo_of_def by linarith+

lemma local_merge:
  fixes smallest pn x :: u64
  assumes ok: "chain_ok s [p, r]"
    and s: "s \<le> 18446744073709551617"
    and sm: "unat smallest = chain_end s [p]"
    and g: "gap r = 0"
    and pn: "pn = smallest - 1"
    and x: "x = range' r + 2"
  shows "chain_ok s [p\<lparr>range' := range' p + x\<rparr>]"
    and "chain_end s [p\<lparr>range' := range' p + x\<rparr>] = chain_end s [p, r]"
    and "chain_pns s [p\<lparr>range' := range' p + x\<rparr>] = insert (unat pn) (chain_pns s [p, r])"
proof -
  let ?p = "p\<lparr>range' := range' p + x\<rparr>"
  from ok have fp: "fits s p" and fr: "fits (lo_of s p) r" by auto
  have sp: "unat smallest = lo_of s p" using sm by simp
  note pp = entry_pos[OF fp] and pr = entry_pos[OF fr]
  have g0: "unat (gap r) = 0" using g by simp
  have "unat (range' r + 2) = unat (range' r) + 2"
    by (rule unat_add2) (use pr g0 sp u64_lt[of smallest] in linarith)
  then have ux: "unat x = unat (range' r) + 2" by (simp only: x)
  have "unat (range' p + x) = unat (range' p) + unat x"
    by (rule unat_add_small) (use pp pr g0 ux s in linarith)
  then have up: "unat (range' ?p) = unat (range' p) + unat (range' r) + 2" using ux by simp
  have gp: "unat (gap ?p) = unat (gap p)" by simp
  have fp': "fits s ?p" unfolding fits_def using up gp pp pr g0 by linarith
  note pp' = entry_pos[OF fp']
  have hi: "hi_of s ?p = hi_of s p" using pp pp' gp by linarith
  have lo: "lo_of s ?p = lo_of (lo_of s p) r" using pp pp' pr up hi g0 by linarith
  have "unat (smallest - 1) = unat smallest - 1"
    by (rule unat_sub1) (use pr g0 sp in linarith)
  then have upn: "unat pn + 1 = lo_of s p" using pn sp pr g0 by simp
  show "chain_ok s [?p]" using fp' by simp
  show "chain_end s [?p] = chain_end s [p, r]" using lo by simp
  have "{lo_of s ?p .. hi_of s ?p}
        = insert (unat pn) ({lo_of s p .. hi_of s p} \<union> {lo_of (lo_of s p) r .. hi_of (lo_of s p) r})"
    unfolding hi lo using upn pp pr g0 by auto
  then show "chain_pns s [?p] = insert (unat pn) (chain_pns s [p, r])" by simp
qed

lemma local_gs:
  fixes smallest pn :: u64
  assumes ok: "chain_ok s [p, r]"
    and sm: "unat smallest = chain_end s [p]"
    and g: "gap r \<noteq> 0"
    and pn: "pn = smallest - 1 - gap r"
  shows "chain_ok s [p, r\<lparr>gap := gap r - 1, range' := range' r + 1\<rparr>]"
    and "chain_end s [p, r\<lparr>gap := gap r - 1, range' := range' r + 1\<rparr>] = chain_end s [p, r]"
    and "chain_pns s [p, r\<lparr>gap := gap r - 1, range' := range' r + 1\<rparr>]
           = insert (unat pn) (chain_pns s [p, r])"
proof -
  let ?r = "r\<lparr>gap := gap r - 1, range' := range' r + 1\<rparr>"
  let ?sp = "lo_of s p"
  from ok have fp: "fits s p" and fr: "fits ?sp r" by auto
  have sp: "unat smallest = ?sp" using sm by simp
  note pp = entry_pos[OF fp] and pr = entry_pos[OF fr]
  have g0: "1 \<le> unat (gap r)" using g by (simp add: unat_gt_0 Suc_le_eq)
  have g1: "unat (gap ?r) = unat (gap r) - 1" using unat_sub1[OF g0] by simp
  have "unat (range' r + 1) = unat (range' r) + 1"
    by (rule unat_add1) (use pr sp u64_lt[of smallest] in linarith)
  then have r1: "unat (range' ?r) = unat (range' r) + 1" by simp
  have fr': "fits ?sp ?r" unfolding fits_def using g0 g1 r1 pr by linarith
  note pr' = entry_pos[OF fr']
  have hi: "hi_of ?sp ?r = hi_of ?sp r + 1" using pr pr' g0 g1 by linarith
  have lo: "lo_of ?sp ?r = lo_of ?sp r" using pr pr' hi r1 by linarith
  have "unat (smallest - 1 - gap r) = unat smallest - 1 - unat (gap r)"
    by (rule gap_bounds(2)[of "gap r" "range' r"]) (use pr sp in linarith)
  then have upn: "unat pn = hi_of ?sp r + 1" using pn sp pr by simp
  show "chain_ok s [p, ?r]" using fp fr' by simp
  show "chain_end s [p, ?r] = chain_end s [p, r]" using lo by simp
  have "{lo_of ?sp ?r .. hi_of ?sp ?r} = insert (unat pn) {lo_of ?sp r .. hi_of ?sp r}"
    unfolding hi lo using upn pr by auto
  then show "chain_pns s [p, ?r] = insert (unat pn) (chain_pns s [p, r])" by auto
qed

lemma local_ge:
  fixes smallest pn :: u64
  assumes ok: "chain_ok s [p, r]"
    and s: "s \<le> 18446744073709551617"
    and sm: "unat smallest = chain_end s [p]"
    and g: "gap r \<noteq> 0"
    and pn: "pn = smallest - 1"
  shows "chain_ok s [p\<lparr>range' := range' p + 1\<rparr>, r\<lparr>gap := gap r - 1\<rparr>]"
    and "chain_end s [p\<lparr>range' := range' p + 1\<rparr>, r\<lparr>gap := gap r - 1\<rparr>] = chain_end s [p, r]"
    and "chain_pns s [p\<lparr>range' := range' p + 1\<rparr>, r\<lparr>gap := gap r - 1\<rparr>]
           = insert (unat pn) (chain_pns s [p, r])"
proof -
  let ?p = "p\<lparr>range' := range' p + 1\<rparr>"
  let ?r = "r\<lparr>gap := gap r - 1\<rparr>"
  let ?sp = "lo_of s p"
  from ok have fp: "fits s p" and fr: "fits ?sp r" by auto
  have sp: "unat smallest = ?sp" using sm by simp
  note pp = entry_pos[OF fp] and pr = entry_pos[OF fr]
  have g0: "1 \<le> unat (gap r)" using g by (simp add: unat_gt_0 Suc_le_eq)
  have g1: "unat (gap ?r) = unat (gap r) - 1" using unat_sub1[OF g0] by simp
  have rr: "unat (range' ?r) = unat (range' r)" by simp
  have "unat (range' p + 1) = unat (range' p) + 1"
    by (rule unat_add1) (use pp pr g0 s in linarith)
  then have p1: "unat (range' ?p) = unat (range' p) + 1" by simp
  have gp: "unat (gap ?p) = unat (gap p)" by simp
  have fp': "fits s ?p" unfolding fits_def using p1 gp pp pr g0 by linarith
  note pp' = entry_pos[OF fp']
  have hip: "hi_of s ?p = hi_of s p" using pp pp' gp by linarith
  have lop: "lo_of s ?p + 1 = ?sp" using pp pp' p1 hip by linarith
  have fr': "fits (lo_of s ?p) ?r" unfolding fits_def using g0 g1 rr pr lop by linarith
  note pr' = entry_pos[OF fr']
  have hir: "hi_of (lo_of s ?p) ?r = hi_of ?sp r" using pr pr' g0 g1 lop by linarith
  have lor: "lo_of (lo_of s ?p) ?r = lo_of ?sp r" using pr pr' hir rr by linarith
  have "unat (smallest - 1) = unat smallest - 1"
    by (rule unat_sub1) (use pr g0 sp in linarith)
  then have upn: "unat pn = lo_of s ?p" using pn sp lop by simp
  show "chain_ok s [?p, ?r]" using fp' fr' by simp
  show "chain_end s [?p, ?r] = chain_end s [p, r]" using lor by simp
  have "{lo_of s ?p .. hi_of s ?p} = insert (unat pn) {?sp .. hi_of s p}"
    unfolding hip using upn lop pp by auto
  then show "chain_pns s [?p, ?r] = insert (unat pn) (chain_pns s [p, r])"
    using hir lor by auto
qed

lemma local_split:
  fixes smallest pn gnew gold :: u64
  assumes ok: "chain_ok s [p, r]"
    and sm: "unat smallest = chain_end s [p]"
    and lo: "unat (smallest - 1 - gap r) < unat pn"
    and hi: "unat pn < unat (smallest - 1)"
    and gnew: "gnew = smallest - 1 - pn - 1"
    and gold: "gold = pn - (smallest - 1 - gap r) - 1"
  shows "chain_ok s [p, \<lparr>gap = gnew, range' = 0\<rparr>, r\<lparr>gap := gold\<rparr>]"
    and "chain_end s [p, \<lparr>gap = gnew, range' = 0\<rparr>, r\<lparr>gap := gold\<rparr>] = chain_end s [p, r]"
    and "chain_pns s [p, \<lparr>gap = gnew, range' = 0\<rparr>, r\<lparr>gap := gold\<rparr>]
           = insert (unat pn) (chain_pns s [p, r])"
proof -
  let ?n = "\<lparr>gap = gnew, range' = 0\<rparr>"
  let ?r = "r\<lparr>gap := gold\<rparr>"
  let ?sp = "lo_of s p"
  from ok have fp: "fits s p" and fr: "fits ?sp r" by auto
  have sp: "unat smallest = ?sp" using sm by simp
  note pp = entry_pos[OF fp] and pr = entry_pos[OF fr]
  have ge: "unat (smallest - 1) = unat smallest - 1"
    and gs: "unat (smallest - 1 - gap r) = unat smallest - 1 - unat (gap r)"
    using gap_bounds[of "gap r" "range' r" smallest] pr sp by simp_all
  have n1: "unat (smallest - 1 - pn) = unat (smallest - 1) - unat pn"
    by (rule unat_sub_le) (use hi in linarith)
  have "unat (smallest - 1 - pn - 1) = unat (smallest - 1 - pn) - 1"
    by (rule unat_sub1) (use n1 hi in linarith)
  then have n2: "unat gnew = unat smallest - 1 - unat pn - 1"
    unfolding gnew n1 ge .
  have m1: "unat (pn - (smallest - 1 - gap r)) = unat pn - unat (smallest - 1 - gap r)"
    by (rule unat_sub_le) (use lo in linarith)
  have "unat (pn - (smallest - 1 - gap r) - 1) = unat (pn - (smallest - 1 - gap r)) - 1"
    by (rule unat_sub1) (use m1 lo in linarith)
  then have m2: "unat gold = unat pn - (unat smallest - 1 - unat (gap r)) - 1"
    unfolding gold m1 gs .
  have lo': "unat smallest - 1 - unat (gap r) < unat pn" using lo gs by simp
  have hi': "unat pn < unat smallest - 1" using hi ge by simp
  have gn: "unat (gap ?n) + unat pn + 2 = ?sp" using n2 hi' sp by simp
  have rn: "unat (range' ?n) = 0" by simp
  have fn: "fits ?sp ?n" unfolding fits_def using gn rn by linarith
  note pn' = entry_pos[OF fn]
  have hin: "hi_of ?sp ?n = unat pn" using pn' gn by linarith
  have lon: "lo_of ?sp ?n = unat pn" using pn' hin rn by linarith
  have go: "unat (gap ?r) + hi_of ?sp r + 2 = unat pn" using m2 lo' hi' sp pr by simp
  have ro: "unat (range' ?r) = unat (range' r)" by simp
  have fo: "fits (unat pn) ?r" unfolding fits_def using go ro pr by linarith
  note po = entry_pos[OF fo]
  have hio: "hi_of (unat pn) ?r = hi_of ?sp r" using po go by linarith
  have loo: "lo_of (unat pn) ?r = lo_of ?sp r" using po pr hio ro by linarith
  show "chain_ok s [p, ?n, ?r]" using fp fn fo lon by simp
  show "chain_end s [p, ?n, ?r] = chain_end s [p, r]" using lon loo by simp
  show "chain_pns s [p, ?n, ?r] = insert (unat pn) (chain_pns s [p, r])"
    using lon hin loo hio by auto
qed

lemma local_tail_extend:
  fixes smallest pn :: u64
  assumes ok: "chain_ok s [p]"
    and s: "s \<le> 18446744073709551617"
    and sm: "unat smallest = chain_end s [p]"
    and lt: "unat pn < unat smallest"
    and pn: "pn = smallest - 1"
  shows "chain_ok s [p\<lparr>range' := range' p + 1\<rparr>]"
    and "chain_pns s [p\<lparr>range' := range' p + 1\<rparr>] = insert (unat pn) (chain_pns s [p])"
proof -
  let ?p = "p\<lparr>range' := range' p + 1\<rparr>"
  from ok have fp: "fits s p" by auto
  have sp: "unat smallest = lo_of s p" using sm by simp
  note pp = entry_pos[OF fp]
  have "unat (smallest - 1) = unat smallest - 1"
    by (rule unat_sub1) (use lt in linarith)
  then have upn: "unat pn + 1 = lo_of s p" using pn sp lt by simp
  have "unat (range' p + 1) = unat (range' p) + 1"
    by (rule unat_add1) (use pp upn s in linarith)
  then have p1: "unat (range' ?p) = unat (range' p) + 1" by simp
  have gp: "unat (gap ?p) = unat (gap p)" by simp
  have fp': "fits s ?p" unfolding fits_def using p1 gp pp upn by linarith
  note pp' = entry_pos[OF fp']
  have hip: "hi_of s ?p = hi_of s p" using pp pp' gp by linarith
  have lop: "lo_of s ?p = unat pn" using pp pp' p1 hip upn by linarith
  show "chain_ok s [?p]" using fp' by simp
  have "{lo_of s ?p .. hi_of s ?p} = insert (unat pn) {lo_of s p .. hi_of s p}"
    unfolding hip lop using upn pp by auto
  then show "chain_pns s [?p] = insert (unat pn) (chain_pns s [p])" by simp
qed

lemma local_tail_insert:
  fixes smallest pn gnew :: u64
  assumes ok: "chain_ok s [p]"
    and sm: "unat smallest = chain_end s [p]"
    and lt: "unat pn < unat smallest"
    and pn: "pn \<noteq> smallest - 1"
    and gnew: "gnew = smallest - 2 - pn"
  shows "chain_ok s [p, \<lparr>gap = gnew, range' = 0\<rparr>]"
    and "chain_pns s [p, \<lparr>gap = gnew, range' = 0\<rparr>]
          = insert (unat pn) (chain_pns s [p])"
proof -
  let ?n = "\<lparr>gap = gnew, range' = 0\<rparr>"
  let ?sp = "lo_of s p"
  from ok have fp: "fits s p" by auto
  have sp: "unat smallest = ?sp" using sm by simp
  have "unat (smallest - 1) = unat smallest - 1"
    by (rule unat_sub1) (use lt in linarith)
  then have "unat pn \<noteq> unat smallest - 1" using pn by (metis word_unat_eq_iff)
  then have lt2: "unat pn + 2 \<le> unat smallest" using lt by linarith
  have n1: "unat (smallest - 2) = unat smallest - 2"
    by (rule unat_sub2) (use lt2 in linarith)
  have "unat (smallest - 2 - pn) = unat (smallest - 2) - unat pn"
    by (rule unat_sub_le) (use lt2 n1 in linarith)
  then have n2: "unat gnew = unat smallest - 2 - unat pn" unfolding gnew n1 .
  have gn: "unat (gap ?n) + unat pn + 2 = ?sp" using n2 lt2 sp by simp
  have rn: "unat (range' ?n) = 0" by simp
  have fn: "fits ?sp ?n" unfolding fits_def using gn rn by linarith
  note pn' = entry_pos[OF fn]
  have hin: "hi_of ?sp ?n = unat pn" using pn' gn by linarith
  have lon: "lo_of ?sp ?n = unat pn" using pn' hin rn by linarith
  show "chain_ok s [p, ?n]" using fp fn by simp
  show "chain_pns s [p, ?n] = insert (unat pn) (chain_pns s [p])"
    using lon hin by auto
qed

subsection \<open>Table updates as list surgery\<close>

lemma list_two: "Suc i < length e \<Longrightarrow> e = take i e @ [e ! i, e ! Suc i] @ drop (i + 2) e"
  by (metis Cons_nth_drop_Suc Suc_lessD add_2_eq_Suc' append_Cons append_Nil append_take_drop_id)

lemma list_upd_second:
  "Suc i < length e \<Longrightarrow> e[Suc i := y] = take i e @ [e ! i, y] @ drop (i + 2) e"
proof -
  assume a: "Suc i < length e"
  have "e[Suc i := y] = (take i e @ [e ! i, e ! Suc i] @ drop (i + 2) e)[Suc i := y]"
    using list_two[OF a] by simp
  also have "\<dots> = take i e @ [e ! i, y] @ drop (i + 2) e"
    using a by (simp add: list_update_append)
  finally show ?thesis .
qed

lemma list_upd_both:
  "Suc i < length e \<Longrightarrow> (e[Suc i := y])[i := x] = take i e @ [x, y] @ drop (i + 2) e"
proof -
  assume a: "Suc i < length e"
  have "(e[Suc i := y])[i := x] = (take i e @ [e ! i, y] @ drop (i + 2) e)[i := x]"
    using list_upd_second[OF a] by simp
  also have "\<dots> = take i e @ [x, y] @ drop (i + 2) e"
    using a by (simp add: list_update_append)
  finally show ?thesis .
qed

lemma list_merge:
  "Suc i < length e \<Longrightarrow>
   take (Suc i) (e[i := x]) @ drop (i + 2) (e[i := x]) = take i e @ [x] @ drop (i + 2) e"
  by (simp add: take_Suc_conv_app_nth)

lemma list_split:
  assumes a: "Suc i < length e"
  shows "take (Suc i) (e[Suc i := y]) @ n # drop (Suc i) (e[Suc i := y])
           = take i e @ [e ! i, n, y] @ drop (i + 2) e"
proof -
  define A where "A = take i e"
  define B where "B = drop (i + 2) e"
  have len: "length A = i" using a by (simp add: A_def)
  have eq: "e[Suc i := y] = A @ [e ! i, y] @ B"
    using list_upd_second[OF a] by (simp add: A_def B_def)
  have "take (Suc i) (A @ [e ! i, y] @ B) = A @ [e ! i]" using len by simp
  moreover have "drop (Suc i) (A @ [e ! i, y] @ B) = y # B" using len by simp
  ultimately show ?thesis unfolding eq A_def[symmetric] B_def[symmetric] by simp
qed

lemma list_last: "Suc i = length e \<Longrightarrow> e = take i e @ [e ! i]"
  by (metis append_take_drop_id Cons_nth_drop_Suc drop_all le_refl lessI)

lemma list_upd_last: "Suc i = length e \<Longrightarrow> e[i := x] = take i e @ [x]"
  by (metis append_Nil2 drop_all le_refl lessI list_update_length upd_conv_take_nth_drop)

lemma ext_length [simp]: "length (ext ctx) = Suc (nranges ctx)"
  by (simp add: ext_def)

lemma ext_nth_Suc [simp]: "ext ctx ! Suc i = ranges ctx ! i"
  by (simp add: ext_def)

lemma ext_ranges_upd:
  "ext (ctx\<lparr>ranges := (ranges ctx)[i := y]\<rparr>) = (ext ctx)[Suc i := y]"
  by (simp add: ext_def)

lemma ext_grow_prev:
  "ext (ngx_quic_ack_grow_prev i x ctx)
     = (ext ctx)[i := (ext ctx ! i)\<lparr>range' := range' (ext ctx ! i) + x\<rparr>]"
  by (cases i) (simp_all add: ext_def ngx_quic_ack_grow_prev_def)

lemma largest_grow_prev [simp]:
  "largest_range (ngx_quic_ack_grow_prev i x ctx) = largest_range ctx"
  by (simp add: ngx_quic_ack_grow_prev_def)

lemma ext_remove:
  "ext (ctx\<lparr>ranges := take i (ranges ctx) @ drop (i + 1) (ranges ctx)\<rparr>)
     = take (Suc i) (ext ctx) @ drop (i + 2) (ext ctx)"
  by (simp add: ext_def)

lemma ext_insert:
  "nranges ctx < N \<Longrightarrow> i \<le> nranges ctx \<Longrightarrow>
   ext (ngx_quic_ack_insert N i g r ctx)
     = take (Suc i) (ext ctx) @ \<lparr>gap = g, range' = r\<rparr> # drop (Suc i) (ext ctx)"
  by (simp add: ext_def ngx_quic_ack_insert_def)

lemma largest_insert [simp]:
  "largest_range (ngx_quic_ack_insert N i g r ctx) = largest_range ctx"
  by (simp add: ngx_quic_ack_insert_def Let_def)

lemma send_ctx_update [simp]: "send_ctx (ctx_update k f qc) k = f (send_ctx qc k)"
  by (simp add: ctx_update_def)

subsection \<open>The gap branches, the tail and the loop\<close>

lemma seg_facts:
  assumes ok: "chain_ok tz e" and i: "Suc i < length e"
  shows "chain_ok (chain_end tz (take i e)) [e ! i, e ! Suc i]"
    and "chain_end tz (take (Suc i) e) = chain_end (chain_end tz (take i e)) [e ! i]"
    and "chain_end tz (take i e) \<le> tz"
    and "chain_end tz (take (i + 2) e) = chain_end (chain_end tz (take i e)) [e ! i, e ! Suc i]"
proof -
  have e: "e = take i e @ [e ! i, e ! Suc i] @ drop (i + 2) e" using list_two[OF i] .
  have "chain_ok tz (take i e @ [e ! i, e ! Suc i] @ drop (i + 2) e)" using ok e by simp
  then have a: "chain_ok tz (take i e)" and b: "chain_ok (chain_end tz (take i e)) [e ! i, e ! Suc i]"
    unfolding chain_ok_append by simp_all
  show "chain_ok (chain_end tz (take i e)) [e ! i, e ! Suc i]" by (rule b)
  have "take (Suc i) e = take i e @ [e ! i]" using i by (simp add: take_Suc_conv_app_nth)
  then show "chain_end tz (take (Suc i) e) = chain_end (chain_end tz (take i e)) [e ! i]"
    by (simp add: chain_end_append)
  show "chain_end tz (take i e) \<le> tz" using chain_end_le[OF a] .
  have "take (i + 2) e = take i e @ [e ! i, e ! Suc i]"
    using i by (simp add: take_Suc_conv_app_nth)
  then show "chain_end tz (take (i + 2) e) = chain_end (chain_end tz (take i e)) [e ! i, e ! Suc i]"
    by (simp add: chain_end_append)
qed

lemma seg_step:
  assumes ok: "chain_ok tz e" and i: "Suc i < length e"
    and 1: "chain_ok (chain_end tz (take i e)) M'"
    and 2: "chain_end (chain_end tz (take i e)) M'
             = chain_end (chain_end tz (take i e)) [e ! i, e ! Suc i]"
    and 3: "chain_pns (chain_end tz (take i e)) M'
             = insert x (chain_pns (chain_end tz (take i e)) [e ! i, e ! Suc i])"
  shows "chain_ok tz (take i e @ M' @ drop (i + 2) e)"
    and "chain_pns tz (take i e @ M' @ drop (i + 2) e) = insert x (chain_pns tz e)"
proof -
  let ?A = "take i e" and ?M = "[e ! i, e ! Suc i]" and ?B = "drop (i + 2) e"
  have e: "e = ?A @ ?M @ ?B" using list_two[OF i] .
  have ok': "chain_ok tz (?A @ ?M @ ?B)" using ok e by simp
  show "chain_ok tz (?A @ M' @ ?B)" using chain_replace(1)[OF ok' 1 2] .
  have "chain_pns tz (?A @ M' @ ?B)
        = chain_pns tz ?A \<union> insert x (chain_pns (chain_end tz ?A) ?M)
          \<union> chain_pns (chain_end tz (?A @ ?M)) ?B"
    using chain_replace(2)[OF ok' 1 2] 3 by simp
  also have "\<dots> = insert x (chain_pns tz (?A @ ?M @ ?B))"
    by (simp add: chain_pns_append chain_end_append Un_assoc)
  finally show "chain_pns tz (?A @ M' @ ?B) = insert x (chain_pns tz e)" using e by simp
qed

lemma seg_last_facts:
  assumes ok: "chain_ok tz e" and i: "Suc i = length e"
  shows "chain_ok (chain_end tz (take i e)) [e ! i]"
    and "chain_end tz e = chain_end (chain_end tz (take i e)) [e ! i]"
    and "chain_end tz (take i e) \<le> tz"
proof -
  have e: "e = take i e @ [e ! i]" using list_last[OF i] .
  have "chain_ok tz (take i e @ [e ! i])" using ok e by simp
  then have a: "chain_ok tz (take i e)" and b: "chain_ok (chain_end tz (take i e)) [e ! i]"
    unfolding chain_ok_append by simp_all
  show "chain_ok (chain_end tz (take i e)) [e ! i]" by (rule b)
  have "chain_end tz (take i e @ [e ! i]) = chain_end (chain_end tz (take i e)) [e ! i]"
    by (simp add: chain_end_append)
  then show "chain_end tz e = chain_end (chain_end tz (take i e)) [e ! i]" using e by simp
  show "chain_end tz (take i e) \<le> tz" using chain_end_le[OF a] .
qed

lemma seg_last_step:
  assumes ok: "chain_ok tz e" and i: "Suc i = length e"
    and 1: "chain_ok (chain_end tz (take i e)) M'"
    and 3: "chain_pns (chain_end tz (take i e)) M'
             = insert x (chain_pns (chain_end tz (take i e)) [e ! i])"
  shows "chain_ok tz (take i e @ M')"
    and "chain_pns tz (take i e @ M') = insert x (chain_pns tz e)"
proof -
  have e: "e = take i e @ [e ! i]" using list_last[OF i] .
  have "chain_ok tz (take i e @ [e ! i])" using ok e by simp
  then have a: "chain_ok tz (take i e)" unfolding chain_ok_append by simp
  show "chain_ok tz (take i e @ M')" using a 1 by (simp add: chain_ok_append)
  have "chain_pns tz (take i e @ M') = insert x (chain_pns tz (take i e @ [e ! i]))"
    using 3 by (simp add: chain_pns_append)
  then show "chain_pns tz (take i e @ M') = insert x (chain_pns tz e)" using e by simp
qed

lemma top_bound: "unat (L :: u64) + 2 \<le> 18446744073709551617"
  using u64_lt[of L] by simp

lemma ack_flush_below:
  "nranges (send_ctx qc k) < N \<Longrightarrow> ngx_quic_ack_flush N now pkt pp k qc = (NGX_OK, qc)"
  by (simp add: ngx_quic_ack_flush_def)

lemma ack_gap_post:
  fixes smallest :: u64
  assumes ok: "chain_ok (unat (largest_range (send_ctx qc k)) + 2) (ext (send_ctx qc k))"
    and i: "i < nranges (send_ctx qc k)"
    and sm: "unat smallest
              = chain_end (unat (largest_range (send_ctx qc k)) + 2) (take (Suc i) (ext (send_ctx qc k)))"
    and ge: "ge = smallest - 1"
    and gs: "gs = ge - gap (ranges (send_ctx qc k) ! i)"
    and lo: "gs \<le> pkt_pn pkt" and hi: "pkt_pn pkt \<le> ge"
    and N: "nranges (send_ctx qc k) < N"
  shows "acc_post (send_ctx qc k) (unat (pkt_pn pkt)) k
           (ngx_quic_ack_gap N now pkt pp k qc i gs ge)"
proof -
  define ctx where "ctx = send_ctx qc k"
  define e where "e = ext ctx"
  define tz where "tz = unat (largest_range ctx) + 2"
  define s where "s = chain_end tz (take i e)"
  define p where "p = e ! i"
  define r where "r = ranges ctx ! i"
  define pn where "pn = pkt_pn pkt"
  have i': "Suc i < length e" using i by (simp add: e_def ctx_def)
  have er: "e ! Suc i = r" by (simp add: e_def r_def)
  have ok': "chain_ok tz e" using ok by (simp add: tz_def e_def ctx_def)
  have sm0: "unat smallest = chain_end tz (take (Suc i) e)"
    using sm unfolding tz_def e_def ctx_def .
  have seg: "chain_ok s [p, r]"
    using seg_facts(1)[OF ok' i'] unfolding s_def p_def er .
  have sm': "unat smallest = chain_end s [p]"
    using seg_facts(2)[OF ok' i'] sm0 unfolding s_def p_def by (simp only:)
  have sle: "s \<le> tz"
    using seg_facts(3)[OF ok' i'] unfolding s_def .
  have s64: "s \<le> 18446744073709551617" using sle top_bound[of "largest_range ctx"]
    by (simp add: tz_def)
  note step = seg_step[OF ok' i', folded s_def p_def, unfolded er]
  have gs': "gs = smallest - 1 - gap r" using gs ge by (simp add: r_def ctx_def)
  have post: "acc_post ctx (unat pn) k (NGX_OK, ctx_update k f qc)"
    if "largest_range (f ctx) = largest_range ctx"
      and "ext (f ctx) = take i e @ M' @ drop (i + 2) e"
      and "chain_ok s M'" and "chain_end s M' = chain_end s [p, r]"
      and "chain_pns s M' = insert (unat pn) (chain_pns s [p, r])" for f M'
  proof -
    have "chain_ok tz (take i e @ M' @ drop (i + 2) e)
          \<and> chain_pns tz (take i e @ M' @ drop (i + 2) e) = insert (unat pn) (chain_pns tz e)"
      using step[OF that(3,4,5)] by (simp only:)
    then show ?thesis
      unfolding acc_post_def fst_conv snd_conv send_ctx_update ctx_def[symmetric] that(1) that(2)
        tz_def[symmetric] e_def[symmetric]
      by (simp only: simp_thms)
  qed
  show ?thesis
  proof (cases "gs = ge")
    case True
    then have g0: "gap r = 0" using gs' ge by simp
    have pn_eq: "pn = smallest - 1" using lo hi True ge by (simp add: pn_def)
    let ?f = "\<lambda>ctx. let ctx1 = ngx_quic_ack_grow_prev i (range' r + 2) ctx
                     in ctx1\<lparr>ranges := take i (ranges ctx1) @ drop (i + 1) (ranges ctx1)\<rparr>"
    let ?p = "p\<lparr>range' := range' p + (range' r + 2)\<rparr>"
    have res: "ngx_quic_ack_gap N now pkt pp k qc i gs ge = (NGX_OK, ctx_update k ?f qc)"
      using True by (simp add: ngx_quic_ack_gap_def Let_def r_def ctx_def)
    have "ext (?f ctx) = take (Suc i) (e[i := ?p]) @ drop (i + 2) (e[i := ?p])"
      by (simp only: Let_def ext_remove ext_grow_prev e_def[symmetric] p_def[symmetric])
    also have "\<dots> = take i e @ [?p] @ drop (i + 2) e" by (rule list_merge[OF i'])
    finally have ex: "ext (?f ctx) = take i e @ [?p] @ drop (i + 2) e" .
    show ?thesis unfolding res ctx_def[symmetric] pn_def[symmetric]
    proof (rule post[of ?f "[?p]"])
      show "largest_range (?f ctx) = largest_range ctx" by (simp add: Let_def)
      show "ext (?f ctx) = take i e @ [?p] @ drop (i + 2) e" by (rule ex)
    qed (rule local_merge[OF seg s64 sm' g0 pn_eq refl])+
  next
    case False
    then have g0: "gap r \<noteq> 0" using gs' ge by auto
    show ?thesis
    proof (cases "pn = gs")
      case True
      let ?r = "r\<lparr>gap := gap r - 1, range' := range' r + 1\<rparr>"
      let ?f = "\<lambda>ctx. ctx\<lparr>ranges := (ranges ctx)[i := ?r]\<rparr>"
      have res: "ngx_quic_ack_gap N now pkt pp k qc i gs ge = (NGX_OK, ctx_update k ?f qc)"
        using True \<open>gs \<noteq> ge\<close>
        by (simp add: ngx_quic_ack_gap_def Let_def r_def ctx_def pn_def)
      have ex: "ext (?f ctx) = take i e @ [p, ?r] @ drop (i + 2) e"
        using i' list_upd_second[OF i', of ?r]
        by (simp add: ext_ranges_upd e_def[symmetric] p_def[symmetric])
      have pn_eq: "pn = smallest - 1 - gap r" using True gs' by simp
      show ?thesis unfolding res ctx_def[symmetric] pn_def[symmetric]
      proof (rule post[of ?f "[p, ?r]"])
        show "largest_range (?f ctx) = largest_range ctx" by simp
        show "ext (?f ctx) = take i e @ [p, ?r] @ drop (i + 2) e" by (rule ex)
      qed (rule local_gs[OF seg sm' g0 pn_eq])+
    next
      case nogs: False
      show ?thesis
      proof (cases "pn = ge")
        case True
        let ?r = "r\<lparr>gap := gap r - 1\<rparr>"
        let ?p = "p\<lparr>range' := range' p + 1\<rparr>"
        let ?f = "\<lambda>ctx. ngx_quic_ack_grow_prev i 1 (ctx\<lparr>ranges := (ranges ctx)[i := ?r]\<rparr>)"
        have res: "ngx_quic_ack_gap N now pkt pp k qc i gs ge = (NGX_OK, ctx_update k ?f qc)"
          using True nogs \<open>gs \<noteq> ge\<close>
          by (simp add: ngx_quic_ack_gap_def Let_def r_def ctx_def pn_def)
        have "(e[Suc i := ?r]) ! i = p" using i' by (simp add: p_def)
        then have ex: "ext (?f ctx) = take i e @ [?p, ?r] @ drop (i + 2) e"
          using list_upd_both[OF i', of ?r ?p]
          by (simp add: ext_grow_prev ext_ranges_upd e_def[symmetric])
        have pn_eq: "pn = smallest - 1" using True ge by simp
        show ?thesis unfolding res ctx_def[symmetric] pn_def[symmetric]
        proof (rule post[of ?f "[?p, ?r]"])
          show "largest_range (?f ctx) = largest_range ctx" by simp
          show "ext (?f ctx) = take i e @ [?p, ?r] @ drop (i + 2) e" by (rule ex)
        qed (rule local_ge[OF seg s64 sm' g0 pn_eq])+
      next
        case noge: False
        let ?n = "\<lparr>gap = ge - pn - 1, range' = 0\<rparr>"
        let ?r = "r\<lparr>gap := pn - gs - 1\<rparr>"
        let ?f = "\<lambda>ctx. ngx_quic_ack_insert N i (ge - pn - 1) 0
                          (ctx\<lparr>ranges := (ranges ctx)[i := (ranges ctx ! i)\<lparr>gap := pn - gs - 1\<rparr>]\<rparr>)"
        have fl: "ngx_quic_ack_flush N now pkt pp k qc = (NGX_OK, qc)"
          using N by (rule ack_flush_below)
        have res: "ngx_quic_ack_gap N now pkt pp k qc i gs ge = (NGX_OK, ctx_update k ?f qc)"
          using noge nogs \<open>gs \<noteq> ge\<close> fl
          by (simp add: ngx_quic_ack_gap_def Let_def pn_def ctx_update_def)
        have N': "nranges (ctx\<lparr>ranges := (ranges ctx)[i := ?r]\<rparr>) < N"
          and i2: "i \<le> nranges (ctx\<lparr>ranges := (ranges ctx)[i := ?r]\<rparr>)"
          using N i by (simp_all add: ctx_def)
        have ex: "ext (?f ctx) = take i e @ [p, ?n, ?r] @ drop (i + 2) e"
          using list_split[OF i', of ?r ?n]
          by (simp add: ext_insert[OF N' i2] ext_ranges_upd e_def[symmetric] p_def[symmetric]
              r_def[symmetric])
        have lo': "unat (smallest - 1 - gap r) < unat pn"
          using lo nogs gs' by (simp add: pn_def word_le_nat_alt word_unat_eq_iff)
        have hi': "unat pn < unat (smallest - 1)"
          using hi noge ge by (simp add: pn_def word_le_nat_alt word_unat_eq_iff)
        have gn: "ge - pn - 1 = smallest - 1 - pn - 1" using ge by simp
        have go: "pn - gs - 1 = pn - (smallest - 1 - gap r) - 1" using gs' by simp
        show ?thesis unfolding res ctx_def[symmetric] pn_def[symmetric]
        proof (rule post[of ?f "[p, ?n, ?r]"])
          show "largest_range (?f ctx) = largest_range ctx" by simp
          show "ext (?f ctx) = take i e @ [p, ?n, ?r] @ drop (i + 2) e" by (rule ex)
        qed (rule local_split[OF seg sm' lo' hi' gn go])+
      qed
    qed
  qed
qed

lemma ack_tail_post:
  fixes smallest :: u64
  assumes ok: "chain_ok (unat (largest_range (send_ctx qc k)) + 2) (ext (send_ctx qc k))"
    and i: "i = nranges (send_ctx qc k)"
    and sm: "unat smallest
              = chain_end (unat (largest_range (send_ctx qc k)) + 2) (ext (send_ctx qc k))"
    and lt: "unat (pkt_pn pkt) < unat smallest"
    and N: "nranges (send_ctx qc k) < N"
  shows "acc_post (send_ctx qc k) (unat (pkt_pn pkt)) k (ngx_quic_ack_tail N pkt k qc i smallest)"
proof -
  define ctx where "ctx = send_ctx qc k"
  define e where "e = ext ctx"
  define tz where "tz = unat (largest_range ctx) + 2"
  define s where "s = chain_end tz (take i e)"
  define p where "p = e ! i"
  define pn where "pn = pkt_pn pkt"
  have i': "Suc i = length e" using i by (simp add: e_def ctx_def)
  have ok': "chain_ok tz e" using ok unfolding tz_def e_def ctx_def .
  have sm0: "unat smallest = chain_end tz e" using sm unfolding tz_def e_def ctx_def .
  have seg: "chain_ok s [p]"
    using seg_last_facts(1)[OF ok' i'] unfolding s_def p_def .
  have sm': "unat smallest = chain_end s [p]"
    using seg_last_facts(2)[OF ok' i'] sm0 unfolding s_def p_def by (simp only:)
  have sle: "s \<le> tz" using seg_last_facts(3)[OF ok' i'] unfolding s_def .
  have s64: "s \<le> 18446744073709551617" using sle top_bound[of "largest_range ctx"]
    by (simp add: tz_def)
  have lt': "unat pn < unat smallest" using lt by (simp add: pn_def)
  note step = seg_last_step[OF ok' i', folded s_def p_def]
  have post: "acc_post ctx (unat pn) k (NGX_OK, ctx_update k f qc)"
    if "largest_range (f ctx) = largest_range ctx"
      and "ext (f ctx) = take i e @ M'"
      and "chain_ok s M'"
      and "chain_pns s M' = insert (unat pn) (chain_pns s [p])" for f M'
  proof -
    have "chain_ok tz (take i e @ M')
          \<and> chain_pns tz (take i e @ M') = insert (unat pn) (chain_pns tz e)"
      using step[OF that(3,4)] by (simp only:)
    then show ?thesis
      unfolding acc_post_def fst_conv snd_conv send_ctx_update ctx_def[symmetric] that(1) that(2)
        tz_def[symmetric] e_def[symmetric]
      by (simp only: simp_thms)
  qed
  show ?thesis
  proof (cases "pn = smallest - 1")
    case True
    let ?p = "p\<lparr>range' := range' p + 1\<rparr>"
    let ?f = "ngx_quic_ack_grow_prev i 1"
    have res: "ngx_quic_ack_tail N pkt k qc i smallest = (NGX_OK, ctx_update k ?f qc)"
      using True by (simp add: ngx_quic_ack_tail_def Let_def pn_def)
    have ex: "ext (?f ctx) = take i e @ [?p]"
      using list_upd_last[OF i', of ?p]
      by (simp only: ext_grow_prev e_def[symmetric] p_def[symmetric])
    show ?thesis unfolding res ctx_def[symmetric] pn_def[symmetric]
    proof (rule post[of ?f "[?p]"])
      show "largest_range (?f ctx) = largest_range ctx" by simp
      show "ext (?f ctx) = take i e @ [?p]" by (rule ex)
    qed (rule local_tail_extend[OF seg s64 sm' lt' True])+
  next
    case False
    let ?n = "\<lparr>gap = smallest - 2 - pn, range' = 0\<rparr>"
    let ?f = "ngx_quic_ack_insert N i (smallest - 2 - pn) 0"
    have res: "ngx_quic_ack_tail N pkt k qc i smallest = (NGX_OK, ctx_update k ?f qc)"
      using False N by (simp add: ngx_quic_ack_tail_def Let_def pn_def)
    have N': "nranges ctx < N" and i2: "i \<le> nranges ctx" using N i by (simp_all add: ctx_def)
    have "ext (?f ctx) = take (Suc i) e @ ?n # drop (Suc i) e"
      by (simp only: ext_insert[OF N' i2] e_def[symmetric])
    also have "\<dots> = take i e @ [p, ?n]"
      using i' list_last[OF i'] by (simp add: p_def)
    finally have ex: "ext (?f ctx) = take i e @ [p, ?n]" .
    show ?thesis unfolding res ctx_def[symmetric] pn_def[symmetric]
    proof (rule post[of ?f "[p, ?n]"])
      show "largest_range (?f ctx) = largest_range ctx" by simp
      show "ext (?f ctx) = take i e @ [p, ?n]" by (rule ex)
    qed (rule local_tail_insert[OF seg sm' lt' False refl])+
  qed
qed

lemma acc_post_known:
  assumes "chain_ok (unat (largest_range (send_ctx qc k)) + 2) (ext (send_ctx qc k))"
    and "x \<in> chain_pns (unat (largest_range (send_ctx qc k)) + 2) (ext (send_ctx qc k))"
  shows "acc_post (send_ctx qc k) x k (NGX_OK, qc)"
  using assms by (simp add: acc_post_def insert_absorb)

lemma seg_pns_sub:
  assumes i: "Suc i < length e"
  shows "chain_pns (chain_end tz (take i e)) [e ! i, e ! Suc i] \<subseteq> chain_pns tz e"
proof -
  have "chain_pns tz (take i e @ [e ! i, e ! Suc i] @ drop (i + 2) e)
          = chain_pns tz (take i e) \<union> chain_pns (chain_end tz (take i e)) [e ! i, e ! Suc i]
            \<union> chain_pns (chain_end tz (take i e @ [e ! i, e ! Suc i])) (drop (i + 2) e)"
    by (simp only: chain_pns_append chain_end_append Un_assoc)
  then show ?thesis using list_two[OF i] by auto
qed

lemma ack_lookup_post:
  fixes smallest :: u64
  assumes ok: "chain_ok (unat (largest_range (send_ctx qc k)) + 2) (ext (send_ctx qc k))"
    and i: "i \<le> nranges (send_ctx qc k)"
    and sm: "unat smallest
              = chain_end (unat (largest_range (send_ctx qc k)) + 2)
                  (take (Suc i) (ext (send_ctx qc k)))"
    and lt: "unat (pkt_pn pkt) < unat smallest"
    and N: "nranges (send_ctx qc k) < N"
  shows "acc_post (send_ctx qc k) (unat (pkt_pn pkt)) k
           (ngx_quic_ack_lookup N now pkt pp k qc i smallest)"
  using i sm lt
proof (induction "nranges (send_ctx qc k) - i" arbitrary: i smallest)
  case 0
  then have i: "i = nranges (send_ctx qc k)" by simp
  have res: "ngx_quic_ack_lookup N now pkt pp k qc i smallest
             = ngx_quic_ack_tail N pkt k qc i smallest"
    using i by (subst ngx_quic_ack_lookup.simps) simp
  have "take (Suc i) (ext (send_ctx qc k)) = ext (send_ctx qc k)" using i by simp
  then have sm': "unat smallest
      = chain_end (unat (largest_range (send_ctx qc k)) + 2) (ext (send_ctx qc k))"
    using "0.prems"(2) by (simp only:)
  show ?case unfolding res by (rule ack_tail_post[OF ok i sm' "0.prems"(3) N])
next
  case (Suc n)
  define ctx where "ctx = send_ctx qc k"
  define e where "e = ext ctx"
  define tz where "tz = unat (largest_range ctx) + 2"
  define s where "s = chain_end tz (take i e)"
  define p where "p = e ! i"
  define r where "r = ranges ctx ! i"
  define pn where "pn = pkt_pn pkt"
  define ge where "ge = smallest - 1"
  define gs where "gs = ge - gap r"
  define largest where "largest = smallest - gap r - 2"
  define smallest1 where "smallest1 = largest - range' r"
  have i: "i < nranges (send_ctx qc k)" using Suc.hyps(2) by simp
  have i': "Suc i < length e" using i by (simp add: e_def ctx_def)
  have er: "e ! Suc i = r" by (simp add: e_def r_def)
  have ok': "chain_ok tz e" using ok unfolding tz_def e_def ctx_def .
  have sm0: "unat smallest = chain_end tz (take (Suc i) e)"
    using Suc.prems(2) unfolding tz_def e_def ctx_def .
  have seg: "chain_ok s [p, r]"
    using seg_facts(1)[OF ok' i'] unfolding s_def p_def er .
  have sm': "unat smallest = chain_end s [p]"
    using seg_facts(2)[OF ok' i'] sm0 unfolding s_def p_def by (simp only:)
  have end2: "chain_end tz (take (Suc (Suc i)) e) = chain_end s [p, r]"
    using seg_facts(4)[OF ok' i'] unfolding s_def p_def er by simp
  from seg have fp: "fits s p" and fr: "fits (lo_of s p) r" by auto
  have sp: "unat smallest = lo_of s p" using sm' by simp
  note pr = entry_pos[OF fr]
  have lt': "unat pn < unat smallest" using Suc.prems(3) by (simp add: pn_def)
  have uge: "unat ge = unat smallest - 1"
    and ugs: "unat gs = unat smallest - 1 - unat (gap r)"
    and ula: "unat largest = unat smallest - unat (gap r) - 2"
    and usm: "unat smallest1 = unat smallest - unat (gap r) - 2 - unat (range' r)"
    unfolding ge_def gs_def largest_def smallest1_def
    using gap_bounds[of "gap r" "range' r" smallest] pr sp by simp_all
  have ugs': "unat gs = hi_of (lo_of s p) r + 1" using ugs pr sp by linarith
  have ula': "unat largest = hi_of (lo_of s p) r" using ula pr sp by linarith
  have usm': "unat smallest1 = lo_of (lo_of s p) r" using usm pr sp by linarith
  have unfold: "ngx_quic_ack_lookup N now pkt pp k qc i smallest =
      (if pn \<ge> gs \<and> pn \<le> ge then ngx_quic_ack_gap N now pkt pp k qc i gs ge
       else if pn \<ge> smallest1 \<and> pn \<le> largest then (NGX_OK, qc)
            else ngx_quic_ack_lookup N now pkt pp k qc (i + 1) smallest1)"
    using i by (subst ngx_quic_ack_lookup.simps)
      (simp add: Let_def pn_def ge_def gs_def largest_def smallest1_def r_def ctx_def)
  show ?case
  proof (cases "pn \<ge> gs \<and> pn \<le> ge")
    case True
    have gs_eq: "gs = ge - gap (ranges (send_ctx qc k) ! i)"
      by (simp add: gs_def r_def ctx_def)
    have "acc_post (send_ctx qc k) (unat (pkt_pn pkt)) k (ngx_quic_ack_gap N now pkt pp k qc i gs ge)"
      using True by (intro ack_gap_post[OF ok i Suc.prems(2) ge_def gs_eq _ _ N])
        (simp_all add: pn_def)
    then show ?thesis unfolding unfold if_P[OF True] .
  next
    case False
    have pn_le_ge: "unat pn \<le> unat ge" using lt' uge by linarith
    with False have "unat pn < unat gs" by (simp add: word_le_nat_alt)
    then have pn_la: "unat pn \<le> unat largest" using ugs' ula' by linarith
    show ?thesis
    proof (cases "pn \<ge> smallest1 \<and> pn \<le> largest")
      case True
      then have "lo_of (lo_of s p) r \<le> unat pn \<and> unat pn \<le> hi_of (lo_of s p) r"
        unfolding word_le_nat_alt usm' ula' by simp
      then have "unat pn \<in> chain_pns s [p, r]" by simp
      then have "unat pn \<in> chain_pns tz e"
        using seg_pns_sub[OF i', of tz] unfolding s_def p_def er by blast
      then have "acc_post (send_ctx qc k) (unat (pkt_pn pkt)) k (NGX_OK, qc)"
        unfolding pn_def tz_def e_def ctx_def by (rule acc_post_known[OF ok])
      then show ?thesis unfolding unfold if_not_P[OF False] if_P[OF True] .
    next
      case nr: False
      with pn_la have lt1: "unat pn < unat smallest1" by (simp add: word_le_nat_alt)
      have a: "n = nranges (send_ctx qc k) - (i + 1)" using Suc.hyps(2) by simp
      have b: "i + 1 \<le> nranges (send_ctx qc k)" using i by simp
      have "unat smallest1 = chain_end tz (take (Suc (i + 1)) e)"
        using end2 usm' by simp
      then have c: "unat smallest1 = chain_end (unat (largest_range (send_ctx qc k)) + 2)
                  (take (Suc (i + 1)) (ext (send_ctx qc k)))"
        unfolding tz_def e_def ctx_def .
      have d: "unat (pkt_pn pkt) < unat smallest1" using lt1 by (simp add: pn_def)
      show ?thesis unfolding unfold if_not_P[OF False] if_not_P[OF nr]
        by (rule Suc.hyps(1)[OF a b c d])
    qed
  qed
qed

subsection \<open>The whole update\<close>

lemma acc_view_eq:
  assumes "acc_view a = acc_view b"
  shows "largest_range a = largest_range b" and "ext a = ext b" and "nranges a = nranges b"
    and "acc_ok a = acc_ok b" and "acc_pns a = acc_pns b"
    and "first_range a = first_range b" and "ranges a = ranges b"
  using assms by (simp_all add: acc_view_def ext_def acc_ok_def acc_pns_def)

lemma acc_post_result:
  assumes "acc_post ctxB x k res" and "acc_view ctxB = acc_view ctx"
    and "largest_range ctx \<noteq> NGX_QUIC_UNSET_PN"
  shows "acc_result ctx x k res"
  using assms acc_view_eq[OF assms(2)]
  by (simp add: acc_post_def acc_result_def acc_ok_def acc_pns_def)

lemma first_entry:
  fixes L F :: u64
  assumes "fits (unat L + 2) \<lparr>gap = 0, range' = F\<rparr>"
  shows "unat F \<le> unat L"
    and "hi_of (unat L + 2) \<lparr>gap = 0, range' = F\<rparr> = unat L"
    and "lo_of (unat L + 2) \<lparr>gap = 0, range' = F\<rparr> = unat L - unat F"
    and "unat (L - F) = unat L - unat F"
proof -
  show 1: "unat F \<le> unat L" using assms by (simp add: fits_def)
  show "hi_of (unat L + 2) \<lparr>gap = 0, range' = F\<rparr> = unat L" by (simp add: hi_of_def)
  show "lo_of (unat L + 2) \<lparr>gap = 0, range' = F\<rparr> = unat L - unat F" by (simp add: lo_of_def)
  show "unat (L - F) = unat L - unat F" using 1 by (rule unat_sub_le)
qed

lemma acc_unset:
  fixes pn :: u64
  assumes "first_range ctx = 0" and "ranges ctx = []" and "pn \<noteq> NGX_QUIC_UNSET_PN"
  shows "acc_ok (ctx\<lparr>largest_range := pn, largest_received := t\<rparr>)"
    and "acc_pns (ctx\<lparr>largest_range := pn, largest_received := t\<rparr>) = {unat pn}"
  using assms by (auto simp: acc_ok_def acc_pns_def ext_def fits_def lo_of_def hi_of_def)

lemma acc_next:
  fixes pn :: u64
  assumes ok: "chain_ok (unat (largest_range ctx) + 2) (ext ctx)"
    and gt: "largest_range ctx < pn" and one: "pn - largest_range ctx = 1"
  shows "chain_ok (unat pn + 2)
           (ext (ctx\<lparr>first_range := first_range ctx + 1, largest_range := pn,
                     largest_received := t\<rparr>))"
    and "chain_pns (unat pn + 2)
           (ext (ctx\<lparr>first_range := first_range ctx + 1, largest_range := pn,
                     largest_received := t\<rparr>))
         = insert (unat pn) (chain_pns (unat (largest_range ctx) + 2) (ext ctx))"
proof -
  define L where "L = largest_range ctx"
  define F where "F = first_range ctx"
  let ?e0 = "\<lparr>gap = 0, range' = F\<rparr>" and ?e1 = "\<lparr>gap = 0, range' = F + 1\<rparr>"
  have ok': "fits (unat L + 2) ?e0" "chain_ok (lo_of (unat L + 2) ?e0) (ranges ctx)"
    using ok by (simp_all add: ext_def L_def F_def)
  note fe = first_entry[OF ok'(1)]
  have "unat (pn - L) = unat pn - unat L"
    by (rule unat_sub_le) (use gt in \<open>simp add: L_def word_less_nat_alt\<close>)
  then have upn: "unat pn = unat L + 1"
    using one gt by (simp add: L_def word_less_nat_alt)
  have "unat (F + 1) = unat F + 1"
    by (rule unat_add1) (use fe(1) upn u64_lt[of pn] in linarith)
  then have f1: "fits (unat pn + 2) ?e1" and lo1: "lo_of (unat pn + 2) ?e1 = lo_of (unat L + 2) ?e0"
    and hi1: "hi_of (unat pn + 2) ?e1 = unat pn"
    using fe(1) upn by (simp_all add: fits_def lo_of_def hi_of_def)
  show "chain_ok (unat pn + 2)
           (ext (ctx\<lparr>first_range := first_range ctx + 1, largest_range := pn,
                     largest_received := t\<rparr>))"
    using f1 lo1 ok'(2) by (simp add: ext_def F_def)
  have "{lo_of (unat pn + 2) ?e1 .. hi_of (unat pn + 2) ?e1}
        = insert (unat pn) {lo_of (unat L + 2) ?e0 .. hi_of (unat L + 2) ?e0}"
    unfolding lo1 hi1 fe(2) fe(3) using upn by auto
  then show "chain_pns (unat pn + 2)
           (ext (ctx\<lparr>first_range := first_range ctx + 1, largest_range := pn,
                     largest_received := t\<rparr>))
         = insert (unat pn) (chain_pns (unat (largest_range ctx) + 2) (ext ctx))"
    using lo1 by (simp add: ext_def F_def[symmetric] L_def[symmetric])
qed

lemma acc_front:
  fixes pn :: u64
  assumes ok: "chain_ok (unat (largest_range ctx) + 2) (ext ctx)"
    and gt: "largest_range ctx < pn" and one: "pn - largest_range ctx \<noteq> 1"
    and N: "nranges ctx < N"
    and g: "g = pn - largest_range ctx - 2"
    and c: "acc_view c = (pn, 0, ranges ctx)"
  shows "chain_ok (unat pn + 2) (ext (ngx_quic_ack_insert N 0 g (first_range ctx) c))"
    and "chain_pns (unat pn + 2) (ext (ngx_quic_ack_insert N 0 g (first_range ctx) c))
         = insert (unat pn) (chain_pns (unat (largest_range ctx) + 2) (ext ctx))"
proof -
  define L where "L = largest_range ctx"
  define F where "F = first_range ctx"
  let ?e0 = "\<lparr>gap = 0, range' = F\<rparr>" and ?z = "\<lparr>gap = 0, range' = 0 :: u64\<rparr>"
  let ?n = "\<lparr>gap = g, range' = F\<rparr>"
  have ok': "fits (unat L + 2) ?e0" "chain_ok (lo_of (unat L + 2) ?e0) (ranges ctx)"
    using ok by (simp_all add: ext_def L_def F_def)
  note fe = first_entry[OF ok'(1)]
  have d: "unat (pn - L) = unat pn - unat L"
    by (rule unat_sub_le) (use gt in \<open>simp add: L_def word_less_nat_alt\<close>)
  have "unat (pn - L) \<noteq> 1" using one by (simp add: L_def word_unat_eq_iff)
  then have ge2: "unat L + 2 \<le> unat pn" using d gt by (simp add: L_def word_less_nat_alt)
  have "unat (pn - L - 2) = unat (pn - L) - 2"
    by (rule unat_sub2) (use d ge2 in linarith)
  then have ug: "unat g + unat L + 2 = unat pn" using d ge2 g by (simp add: L_def)
  have cf: "first_range c = 0" and cr: "ranges c = ranges ctx"
    using c by (simp_all add: acc_view_def)
  have N': "nranges c < N" using N cr by simp
  have ex: "ext (ngx_quic_ack_insert N 0 g F c) = ?z # ?n # ranges ctx"
    using ext_insert[OF N', of 0 g F] cf cr by (simp add: ext_def)
  have fz: "fits (unat pn + 2) ?z" and loz: "lo_of (unat pn + 2) ?z = unat pn"
    and hiz: "hi_of (unat pn + 2) ?z = unat pn"
    by (simp_all add: fits_def lo_of_def hi_of_def)
  have fn: "fits (unat pn) ?n" unfolding fits_def using ug fe(1) by simp
  note pn' = entry_pos[OF fn]
  have hin: "hi_of (unat pn) ?n = hi_of (unat L + 2) ?e0" using pn'(1) ug fe(2) by simp
  have lon: "lo_of (unat pn) ?n = lo_of (unat L + 2) ?e0"
    using pn'(2) hin fe by simp
  show "chain_ok (unat pn + 2) (ext (ngx_quic_ack_insert N 0 g (first_range ctx) c))"
    unfolding F_def[symmetric] ex using fz loz fn lon ok'(2) by simp
  show "chain_pns (unat pn + 2) (ext (ngx_quic_ack_insert N 0 g (first_range ctx) c))
         = insert (unat pn) (chain_pns (unat (largest_range ctx) + 2) (ext ctx))"
    unfolding F_def[symmetric] ex using loz hiz lon hin
    by (simp add: ext_def F_def[symmetric] L_def[symmetric])
qed

lemma acc_view_pending [simp]:
  "acc_view (ngx_quic_ack_pending now pkt ctx) = acc_view ctx"
  by (simp add: ngx_quic_ack_pending_def acc_view_def Let_def)

lemma acc_view_send_ack [simp]:
  "acc_view (ctx\<lparr>send_ack := x\<rparr>) = acc_view ctx"
  by (simp add: acc_view_def)

lemma send_ctx_push [simp]: "send_ctx (qc\<lparr>push_posted := b\<rparr>) = send_ctx qc"
  by simp

lemma ack_packet_acc:
  assumes ok: "acc_ok (send_ctx qc (ngx_quic_get_send_ctx (pkt_level pkt)))"
    and pn: "pkt_pn pkt \<noteq> NGX_QUIC_UNSET_PN"
    and N: "nranges (send_ctx qc (ngx_quic_get_send_ctx (pkt_level pkt))) < N"
  shows "acc_result (send_ctx qc (ngx_quic_get_send_ctx (pkt_level pkt))) (unat (pkt_pn pkt))
           (ngx_quic_get_send_ctx (pkt_level pkt)) (ngx_quic_ack_packet N now qc pkt)"
proof -
  define k where "k = ngx_quic_get_send_ctx (pkt_level pkt)"
  define ctx where "ctx = send_ctx qc k"
  define pp where "pp = pending_ack (send_ctx qc k)"
  define qcA where "qcA = (if pkt_need_ack pkt
                then ctx_update k (ngx_quic_ack_pending now pkt) (qc\<lparr>push_posted := True\<rparr>)
                else qc)"
  define qcB where "qcB = (if pkt_need_ack pkt
                             then ctx_update k
                                    (\<lambda>ctx. ctx\<lparr>send_ack := NGX_QUIC_MAX_ACK_GAP\<rparr>) qcA
                             else qcA)"
  define x where "x = pkt_pn pkt"
  define L where "L = largest_range ctx"
  define F where "F = first_range ctx"
  have vA: "acc_view (send_ctx qcA k) = acc_view ctx"
    by (simp add: qcA_def ctx_def)
  have vB: "acc_view (send_ctx qcB k) = acc_view ctx"
    using vA by (simp add: qcB_def)
  note eA = acc_view_eq[OF vA] and eB = acc_view_eq[OF vB]
  have NA: "nranges (send_ctx qcA k) < N" using N eA(3) by (simp add: ctx_def k_def)
  have NB: "nranges (send_ctx qcB k) < N" using N eB(3) by (simp add: ctx_def k_def)
  have ok': "acc_ok ctx" using ok by (simp add: ctx_def k_def)
  have unfold: "ngx_quic_ack_packet N now qc pkt =
     (if L = NGX_QUIC_UNSET_PN then
           (NGX_OK,
            ctx_update k
              (\<lambda>ctx. ctx\<lparr>largest_range := x, largest_received := pkt_received pkt\<rparr>) qcA)
      else if L = x then (NGX_OK, qcA)
      else if x > L then
                 (if x - L = 1 then
                    (NGX_OK,
                     ctx_update k
                       (\<lambda>ctx. ctx\<lparr>first_range := first_range ctx + 1, largest_range := x,
                                  largest_received := pkt_received pkt\<rparr>)
                       qcA)
                  else
                    (NGX_OK, ctx_update k (ngx_quic_ack_insert N 0 (x - L - 2) F)
                      (if pkt_need_ack pkt
                                     then ctx_update k
                                            (\<lambda>ctx. ctx\<lparr>send_ack := NGX_QUIC_MAX_ACK_GAP\<rparr>) 
                                            (ctx_update k
                                      (\<lambda>ctx. ctx\<lparr>first_range := 0, largest_range := x,
                                                 largest_received := pkt_received pkt\<rparr>)
                                      qcA)
                                     else ctx_update k
                                      (\<lambda>ctx. ctx\<lparr>first_range := 0, largest_range := x,
                                                 largest_received := pkt_received pkt\<rparr>)
                                      qcA)))
      else if x \<ge> L - F \<and> x \<le> L then (NGX_OK, qcB)
           else ngx_quic_ack_lookup N now pkt pp k qcB 0 (L - F))" (is "_ = ?rhs")
    unfolding ngx_quic_ack_packet_def Let_def k_def[symmetric] qcA_def[symmetric]
      qcB_def[symmetric] x_def[symmetric] pp_def[symmetric] ack_flush_below[OF NA]
      eA(1) eA(6) L_def[symmetric] F_def[symmetric]
    by (simp add: eA(1) eA(6) L_def[symmetric] F_def[symmetric])
  have xn: "x \<noteq> NGX_QUIC_UNSET_PN" using pn by (simp add: x_def)
  have goal: "acc_result ctx (unat x) k ?rhs"
  proof (cases "L = NGX_QUIC_UNSET_PN")
    case True
    have z: "first_range ctx = 0" "ranges ctx = []"
      using ok' True by (simp_all add: acc_ok_def L_def)
    have zA: "first_range (send_ctx qcA k) = 0" "ranges (send_ctx qcA k) = []"
      using z eA by simp_all
    have "acc_pns ctx = {}" using True by (simp add: acc_pns_def L_def)
    then show ?thesis
      unfolding if_P[OF True] using acc_unset[OF zA xn] xn
      by (simp add: acc_result_def)
  next
    case set: False
    have okc: "chain_ok (unat L + 2) (ext ctx)"
      using ok' set by (simp add: acc_ok_def L_def)
    have okA: "chain_ok (unat (largest_range (send_ctx qcA k)) + 2) (ext (send_ctx qcA k))"
      using okc eA by (simp add: L_def)
    have okB: "chain_ok (unat (largest_range (send_ctx qcB k)) + 2) (ext (send_ctx qcB k))"
      using okc eB by (simp add: L_def)
    have pnsA: "chain_pns (unat (largest_range (send_ctx qcA k)) + 2) (ext (send_ctx qcA k))
                 = acc_pns ctx"
      using set eA by (simp add: acc_pns_def L_def)
    have f0: "fits (unat L + 2) \<lparr>gap = 0, range' = F\<rparr>"
      using okc by (simp add: ext_def F_def)
    note fe = first_entry[OF f0]
    have first_in: "{unat L - unat F .. unat L} \<subseteq> acc_pns ctx"
      using set fe by (simp add: acc_pns_def ext_def L_def[symmetric] F_def[symmetric])
    show ?thesis
    proof (cases "L = x")
      case True
      have "unat x \<in> acc_pns ctx" using first_in True by auto
      then show ?thesis
        unfolding if_not_P[OF set] if_P[OF True] using ok' set eA
        by (simp add: acc_result_def insert_absorb L_def)
    next
      case ne: False
      show ?thesis
      proof (cases "x > L")
        case True
        have gtA: "largest_range (send_ctx qcA k) < x" using True eA by (simp add: L_def)
        show ?thesis
        proof (cases "x - L = 1")
          case one: True
          have oneA: "x - largest_range (send_ctx qcA k) = 1" using one eA by (simp add: L_def)
          show ?thesis
            unfolding if_not_P[OF set] if_not_P[OF ne] if_P[OF True] if_P[OF one]
            using acc_next[OF okA gtA oneA, of "pkt_received pkt"] xn pnsA
            by (simp add: acc_result_def acc_ok_def acc_pns_def)
        next
          case two: False
          have twoA: "x - largest_range (send_ctx qcA k) \<noteq> 1" using two eA by (simp add: L_def)
          have g: "x - L - 2 = x - largest_range (send_ctx qcA k) - 2" using eA by (simp add: L_def)
          define c where "c = send_ctx (if pkt_need_ack pkt
                                     then ctx_update k
                                            (\<lambda>ctx. ctx\<lparr>send_ack := NGX_QUIC_MAX_ACK_GAP\<rparr>) 
                                            (ctx_update k
                                      (\<lambda>ctx. ctx\<lparr>first_range := 0, largest_range := x,
                                                 largest_received := pkt_received pkt\<rparr>)
                                      qcA)
                                     else ctx_update k
                                      (\<lambda>ctx. ctx\<lparr>first_range := 0, largest_range := x,
                                                 largest_received := pkt_received pkt\<rparr>)
                                      qcA) k"
          have cv: "acc_view c = (x, 0, ranges (send_ctx qcA k))"
            by (simp add: c_def acc_view_def)
          have FA: "F = first_range (send_ctx qcA k)" using eA by (simp add: F_def)
          note fr = acc_front[OF okA gtA twoA NA g cv, folded FA]
          have lc: "largest_range (ngx_quic_ack_insert N 0 (x - L - 2) F c) = x"
            using cv by (simp add: acc_view_def)
          show ?thesis
            unfolding if_not_P[OF set] if_not_P[OF ne] if_P[OF True] if_not_P[OF two]
            using fr xn pnsA lc
            by (simp add: acc_result_def acc_ok_def acc_pns_def c_def[symmetric])
        qed
      next
        case lt: False
        have xL: "unat x < unat L" using lt ne by (simp add: word_less_nat_alt word_unat_eq_iff)
        show ?thesis
        proof (cases "x \<ge> L - F \<and> x \<le> L")
          case True
          then have "unat x \<in> {unat L - unat F .. unat L}"
            using fe(4) by (simp add: word_le_nat_alt)
          then have "unat x \<in> acc_pns ctx" using first_in by blast
          then show ?thesis
            unfolding if_not_P[OF set] if_not_P[OF ne] if_not_P[OF lt] if_P[OF True]
            using ok' set eB
            by (simp add: acc_result_def insert_absorb L_def)
        next
          case out: False
          then have xs: "unat x < unat (L - F)" using xL by (simp add: word_le_nat_alt)
          have i0: "0 \<le> nranges (send_ctx qcB k)" by simp
          have "unat (L - F) = chain_end (unat L + 2) (take (Suc 0) (ext ctx))"
            using fe by (simp add: ext_def F_def[symmetric])
          then have sm: "unat (L - F) = chain_end (unat (largest_range (send_ctx qcB k)) + 2)
                  (take (Suc 0) (ext (send_ctx qcB k)))"
            using eB by (simp add: L_def)
          have lt': "unat (pkt_pn pkt) < unat (L - F)" using xs by (simp add: x_def)
          have "acc_post (send_ctx qcB k) (unat (pkt_pn pkt)) k
                  (ngx_quic_ack_lookup N now pkt pp k qcB 0 (L - F))"
            by (rule ack_lookup_post[OF okB i0 sm lt' NB])
          then have "acc_result ctx (unat x) k (ngx_quic_ack_lookup N now pkt pp k qcB 0 (L - F))"
            using acc_post_result[OF _ vB] set by (simp add: x_def L_def)
          then show ?thesis
            unfolding if_not_P[OF set] if_not_P[OF ne] if_not_P[OF lt] if_not_P[OF out] .
        qed
      qed
    qed
  qed
  show ?thesis
    unfolding k_def[symmetric] ctx_def[symmetric] x_def[symmetric] unfold by (rule goal)
qed

lemma ack_packets_acc:
  assumes "acc_ok (send_ctx qc k)" and "in_space k ps" and "below_capacity N k qc ps"
  shows "fst (ngx_quic_ack_packets N qc ps) = NGX_OK
         \<and> acc_ok (send_ctx (snd (ngx_quic_ack_packets N qc ps)) k)
         \<and> acc_pns (send_ctx (snd (ngx_quic_ack_packets N qc ps)) k)
             = unat ` pns_of ps \<union> acc_pns (send_ctx qc k)
         \<and> (ps \<noteq> [] \<longrightarrow>
              largest_range (send_ctx (snd (ngx_quic_ack_packets N qc ps)) k) \<noteq> NGX_QUIC_UNSET_PN)"
  using assms
proof (induction ps arbitrary: qc)
  case Nil
  then show ?case by (simp add: pns_of_def)
next
  case (Cons a ps)
  obtain now pkt where a: "a = (now, pkt)" by (cases a)
  obtain rc qc1 where r: "ngx_quic_ack_packet N now qc pkt = (rc, qc1)"
    by (cases "ngx_quic_ack_packet N now qc pkt")
  have k: "ngx_quic_get_send_ctx (pkt_level pkt) = k" and pn: "pkt_pn pkt \<noteq> NGX_QUIC_UNSET_PN"
    and sp: "in_space k ps"
    using Cons.prems(2) a by (simp_all add: in_space_def)
  have N: "nranges (send_ctx qc k) < N" and bc: "below_capacity N k qc1 ps"
    using Cons.prems(3) a r by simp_all
  have "acc_result (send_ctx qc k) (unat (pkt_pn pkt)) k (ngx_quic_ack_packet N now qc pkt)"
    using ack_packet_acc[of qc pkt N now] Cons.prems(1) pn N unfolding k by simp
  then have rc: "rc = NGX_OK" and l1: "largest_range (send_ctx qc1 k) \<noteq> NGX_QUIC_UNSET_PN"
    and ok1: "acc_ok (send_ctx qc1 k)"
    and p1: "acc_pns (send_ctx qc1 k) = insert (unat (pkt_pn pkt)) (acc_pns (send_ctx qc k))"
    unfolding r acc_result_def by simp_all
  note IH = Cons.IH[OF ok1 sp bc]
  have run: "ngx_quic_ack_packets N qc (a # ps) = ngx_quic_ack_packets N qc1 ps"
    using a r rc by simp
  have pns: "pns_of (a # ps) = insert (pkt_pn pkt) (pns_of ps)"
    using a by (simp add: pns_of_def)
  have last: "largest_range (send_ctx (snd (ngx_quic_ack_packets N qc1 ps)) k) \<noteq> NGX_QUIC_UNSET_PN"
  proof (cases ps)
    case Nil then show ?thesis using l1 by simp
  next
    case (Cons b bs) then show ?thesis using IH by simp
  qed
  show ?case unfolding run pns using IH p1 last by auto
qed

lemma acc_canonical:
  assumes oka: "acc_ok a" and okb: "acc_ok b"
    and la: "largest_range a \<noteq> NGX_QUIC_UNSET_PN" and lb: "largest_range b \<noteq> NGX_QUIC_UNSET_PN"
    and eq: "acc_pns a = acc_pns b"
  shows "acc_view a = acc_view b"
proof -
  let ?ta = "unat (largest_range a) + 2" and ?tb = "unat (largest_range b) + 2"
  have ca: "chain_ok ?ta (ext a)" and cb: "chain_ok ?tb (ext b)"
    using oka okb la lb by (simp_all add: acc_ok_def)
  have pa: "acc_pns a = chain_pns ?ta (ext a)" and pb: "acc_pns b = chain_pns ?tb (ext b)"
    using la lb by (simp_all add: acc_pns_def)
  have ea: "ext a = \<lparr>gap = 0, range' = first_range a\<rparr> # ranges a"
    and eb: "ext b = \<lparr>gap = 0, range' = first_range b\<rparr> # ranges b"
    by (simp_all add: ext_def)
  have ha: "hi_of ?ta \<lparr>gap = 0, range' = first_range a\<rparr> = unat (largest_range a)"
    and hb: "hi_of ?tb \<lparr>gap = 0, range' = first_range b\<rparr> = unat (largest_range b)"
    by (simp_all add: hi_of_def)
  have "unat (largest_range a) \<in> acc_pns a"
    using chain_pns_Cons_top[OF ca[unfolded ea]] unfolding pa ea ha .
  then have "unat (largest_range a) \<in> chain_pns ?tb (\<lparr>gap = 0, range' = first_range b\<rparr> # ranges b)"
    unfolding eq pb eb .
  from chain_pns_Cons_le[OF cb[unfolded eb] this]
  have 1: "unat (largest_range a) \<le> unat (largest_range b)" unfolding hb .
  have "unat (largest_range b) \<in> acc_pns b"
    using chain_pns_Cons_top[OF cb[unfolded eb]] unfolding pb eb hb .
  then have "unat (largest_range b) \<in> chain_pns ?ta (\<lparr>gap = 0, range' = first_range a\<rparr> # ranges a)"
    unfolding eq[symmetric] pa ea .
  from chain_pns_Cons_le[OF ca[unfolded ea] this]
  have 2: "unat (largest_range b) \<le> unat (largest_range a)" unfolding ha .
  have L: "largest_range a = largest_range b" using 1 2 by (simp add: word_unat_eq_iff)
  have "chain_pns ?ta (ext a) = chain_pns ?ta (ext b)" using eq pa pb L by simp
  then have "ext a = ext b" using chain_canonical[OF ca] cb L by simp
  then show ?thesis using L by (simp add: acc_view_def ext_def)
qed

lemma largest_unset_pns: "acc_ok a \<Longrightarrow> largest_range a \<noteq> NGX_QUIC_UNSET_PN \<Longrightarrow> acc_pns a \<noteq> {}"
  using chain_pns_Cons_top[of "unat (largest_range a) + 2" "\<lparr>gap = 0, range' = first_range a\<rparr>" "ranges a"]
  by (auto simp: acc_ok_def acc_pns_def ext_def)

lemma pns_of_empty: "(pns_of ps = {}) = (ps = [])"
  by (simp add: pns_of_def)


lemma chain_end_in_pns:
  "chain_ok tz e \<Longrightarrow> e \<noteq> [] \<Longrightarrow> chain_end tz e \<in> chain_pns tz e"
proof (induction e arbitrary: tz)
  case Nil then show ?case by simp
next
  case (Cons r rs)
  then have f: "fits tz r" and ok: "chain_ok (lo_of tz r) rs" by auto
  show ?case
  proof (cases rs)
    case Nil
    then show ?thesis using fits_lo_hi[OF f] by simp
  next
    case (Cons a as)
    then have "chain_end (lo_of tz r) rs \<in> chain_pns (lo_of tz r) rs"
      using Cons.IH[OF ok] by simp
    then show ?thesis by simp
  qed
qed

lemma chain_end_take_le:
  "chain_ok tz e \<Longrightarrow> chain_end tz e \<le> chain_end tz (take n e)"
proof -
  assume ok: "chain_ok tz e"
  have "chain_ok tz (take n e @ drop n e)" using ok by simp
  then have "chain_ok (chain_end tz (take n e)) (drop n e)" unfolding chain_ok_append by simp
  from chain_end_le[OF this] have "chain_end (chain_end tz (take n e)) (drop n e) \<le> chain_end tz (take n e)" .
  moreover have "chain_end tz (take n e @ drop n e) = chain_end (chain_end tz (take n e)) (drop n e)"
    by (rule chain_end_append)
  ultimately show ?thesis by simp
qed

lemma ack_lookup_below:
  fixes smallest :: u64
  assumes ok: "chain_ok (unat (largest_range (send_ctx qc k)) + 2) (ext (send_ctx qc k))"
    and i: "i \<le> nranges (send_ctx qc k)"
    and sm: "unat smallest
              = chain_end (unat (largest_range (send_ctx qc k)) + 2)
                  (take (Suc i) (ext (send_ctx qc k)))"
    and below: "unat (pkt_pn pkt) + 1
                 < chain_end (unat (largest_range (send_ctx qc k)) + 2) (ext (send_ctx qc k))"
  shows "\<exists>sm'. unat sm' = chain_end (unat (largest_range (send_ctx qc k)) + 2) (ext (send_ctx qc k))
           \<and> ngx_quic_ack_lookup N now pkt pp k qc i smallest
              = ngx_quic_ack_tail N pkt k qc (nranges (send_ctx qc k)) sm'"
  using i sm
proof (induction "nranges (send_ctx qc k) - i" arbitrary: i smallest)
  case 0
  then have i: "i = nranges (send_ctx qc k)" by simp
  have res: "ngx_quic_ack_lookup N now pkt pp k qc i smallest
             = ngx_quic_ack_tail N pkt k qc i smallest"
    using i by (subst ngx_quic_ack_lookup.simps) simp
  have "take (Suc i) (ext (send_ctx qc k)) = ext (send_ctx qc k)" using i by simp
  then have "unat smallest
      = chain_end (unat (largest_range (send_ctx qc k)) + 2) (ext (send_ctx qc k))"
    using "0.prems"(2) by (simp only:)
  then show ?case using res i by blast
next
  case (Suc n)
  define ctx where "ctx = send_ctx qc k"
  define e where "e = ext ctx"
  define tz where "tz = unat (largest_range ctx) + 2"
  define s where "s = chain_end tz (take i e)"
  define p where "p = e ! i"
  define r where "r = ranges ctx ! i"
  define pn where "pn = pkt_pn pkt"
  define ge where "ge = smallest - 1"
  define gs where "gs = ge - gap r"
  define largest where "largest = smallest - gap r - 2"
  define smallest1 where "smallest1 = largest - range' r"
  have i: "i < nranges (send_ctx qc k)" using Suc.hyps(2) by simp
  have i': "Suc i < length e" using i by (simp add: e_def ctx_def)
  have er: "e ! Suc i = r" by (simp add: e_def r_def)
  have ok': "chain_ok tz e" using ok unfolding tz_def e_def ctx_def .
  have sm0: "unat smallest = chain_end tz (take (Suc i) e)"
    using Suc.prems(2) unfolding tz_def e_def ctx_def .
  have seg: "chain_ok s [p, r]"
    using seg_facts(1)[OF ok' i'] unfolding s_def p_def er .
  have sm': "unat smallest = chain_end s [p]"
    using seg_facts(2)[OF ok' i'] sm0 unfolding s_def p_def by (simp only:)
  have end2: "chain_end tz (take (Suc (Suc i)) e) = chain_end s [p, r]"
    using seg_facts(4)[OF ok' i'] unfolding s_def p_def er by simp
  from seg have fp: "fits s p" and fr: "fits (lo_of s p) r" by auto
  have sp: "unat smallest = lo_of s p" using sm' by simp
  note pr = entry_pos[OF fr]
  have uge: "unat ge = unat smallest - 1"
    and ugs: "unat gs = unat smallest - 1 - unat (gap r)"
    and ula: "unat largest = unat smallest - unat (gap r) - 2"
    and usm: "unat smallest1 = unat smallest - unat (gap r) - 2 - unat (range' r)"
    unfolding ge_def gs_def largest_def smallest1_def
    using gap_bounds[of "gap r" "range' r" smallest] pr sp by simp_all
  have ugs': "unat gs = hi_of (lo_of s p) r + 1" using ugs pr sp by linarith
  have usm': "unat smallest1 = lo_of (lo_of s p) r" using usm pr sp by linarith
  have "chain_end tz e \<le> chain_end tz (take (Suc (Suc i)) e)" by (rule chain_end_take_le[OF ok'])
  then have low: "unat pn + 1 < lo_of (lo_of s p) r"
    using below end2 unfolding tz_def e_def ctx_def pn_def by simp
  have nogap: "\<not> (pn \<ge> gs \<and> pn \<le> ge)"
    using low ugs' pr by (simp add: word_le_nat_alt)
  have norange: "\<not> (pn \<ge> smallest1 \<and> pn \<le> largest)"
    using low usm' by (simp add: word_le_nat_alt)
  have unfold: "ngx_quic_ack_lookup N now pkt pp k qc i smallest =
      (if pn \<ge> gs \<and> pn \<le> ge then ngx_quic_ack_gap N now pkt pp k qc i gs ge
       else if pn \<ge> smallest1 \<and> pn \<le> largest then (NGX_OK, qc)
            else ngx_quic_ack_lookup N now pkt pp k qc (i + 1) smallest1)"
    using i by (subst ngx_quic_ack_lookup.simps)
      (simp add: Let_def pn_def ge_def gs_def largest_def smallest1_def r_def ctx_def)
  have a: "n = nranges (send_ctx qc k) - (i + 1)" using Suc.hyps(2) by simp
  have b: "i + 1 \<le> nranges (send_ctx qc k)" using i by simp
  have "unat smallest1 = chain_end tz (take (Suc (i + 1)) e)"
    using end2 usm' by simp
  then have c: "unat smallest1 = chain_end (unat (largest_range (send_ctx qc k)) + 2)
                  (take (Suc (i + 1)) (ext (send_ctx qc k)))"
    unfolding tz_def e_def ctx_def .
  show ?case unfolding unfold if_not_P[OF nogap] if_not_P[OF norange]
    by (rule Suc.hyps(1)[OF a b c])
qed

lemma alloc_frame_frames:
  "send_ctx (snd (ngx_quic_alloc_frame qc sz)) = send_ctx qc"
  by (simp add: ngx_quic_alloc_frame_def ngx_alloc_def split: prod.splits bool.splits)

lemma send_ack_range_ctx:
  "send_ctx (snd (ngx_quic_send_ack_range k qc a b)) = send_ctx qc"
  using alloc_frame_frames[of qc 0]
  by (cases "ngx_quic_alloc_frame qc 0") (auto simp: ngx_quic_send_ack_range_def split: bool.splits)

lemma send_ack_range_rc:
  "fst (ngx_quic_send_ack_range k qc a b) = (if free_frames qc = 0 \<and> mem qc = 0 then NGX_ERROR else NGX_OK)"
  by (simp add: ngx_quic_send_ack_range_def ngx_quic_alloc_frame_def ngx_alloc_def
      split: prod.splits bool.splits)

subsection \<open>Evaluation at the sample inputs\<close>

lemmas sample_defs = sample_conn_def sample_tp_def sample_pkt_def full_conn_def
  ngx_quic_new_connection_def ngx_quic_new_send_ctx_def ctx_update_def NGX_QUIC_UNSET_PN_def
  ngx_quic_get_send_ctx_def

lemmas ack_eval = ngx_quic_ack_packet_def ngx_quic_ack_pending_def ngx_quic_ack_lookup.simps
  ngx_quic_ack_tail_def ngx_quic_ack_gap_def ngx_quic_ack_insert_def ngx_quic_ack_grow_prev_def
  ngx_quic_ack_flush_def ngx_quic_send_ack_def ngx_quic_send_ack_range_def
  ngx_quic_alloc_frame_def ngx_alloc_def ngx_quic_queue_frame_def NGX_QUIC_MAX_ACK_GAP_def
  Let_def

subsection \<open>A packet too old for a full table\<close>

text \<open>
  C1. The table of the space is full, the packet is ack-eliciting, and its number lies
  below every tracked packet number without touching the oldest range. Then
  \<^verbatim>\<open>ngx_quic_ack_packet\<close> leaves the pending-frame queue of every send context as it
  was: the single-number ACK frame that \<^verbatim>\<open>ngx_quic_send_ack_range\<close> builds is not queued.
  The accumulator is unchanged, so the packet number is not recorded, and the call
  succeeds unless no frame can be allocated.
\<close>

theorem C1_too_old_ack_not_queued:
  assumes ok: "acc_ok (send_ctx qc (ngx_quic_get_send_ctx (pkt_level pkt)))"
    and set: "largest_range (send_ctx qc (ngx_quic_get_send_ctx (pkt_level pkt))) \<noteq> NGX_QUIC_UNSET_PN"
    and full: "nranges (send_ctx qc (ngx_quic_get_send_ctx (pkt_level pkt))) = N"
    and need: "pkt_need_ack pkt"
    and old: "\<forall>x \<in> acc_pns (send_ctx qc (ngx_quic_get_send_ctx (pkt_level pkt))).
                 unat (pkt_pn pkt) + 1 < x"
  shows "(\<forall>j. frames (send_ctx (snd (ngx_quic_ack_packet N now qc pkt)) j) = frames (send_ctx qc j))
       \<and> largest_range (send_ctx (snd (ngx_quic_ack_packet N now qc pkt))
            (ngx_quic_get_send_ctx (pkt_level pkt)))
          = largest_range (send_ctx qc (ngx_quic_get_send_ctx (pkt_level pkt)))
       \<and> first_range (send_ctx (snd (ngx_quic_ack_packet N now qc pkt))
            (ngx_quic_get_send_ctx (pkt_level pkt)))
          = first_range (send_ctx qc (ngx_quic_get_send_ctx (pkt_level pkt)))
       \<and> ranges (send_ctx (snd (ngx_quic_ack_packet N now qc pkt))
            (ngx_quic_get_send_ctx (pkt_level pkt)))
          = ranges (send_ctx qc (ngx_quic_get_send_ctx (pkt_level pkt)))
       \<and> fst (ngx_quic_ack_packet N now qc pkt)
          = (if free_frames qc = 0 \<and> mem qc = 0 then NGX_ERROR else NGX_OK)"
proof -
  define k where "k = ngx_quic_get_send_ctx (pkt_level pkt)"
  define ctx where "ctx = send_ctx qc k"
  define pp where "pp = pending_ack (send_ctx qc k)"
  define qcA where "qcA = ctx_update k (ngx_quic_ack_pending now pkt) (qc\<lparr>push_posted := True\<rparr>)"
  define qcB where "qcB = ctx_update k (\<lambda>ctx. ctx\<lparr>send_ack := NGX_QUIC_MAX_ACK_GAP\<rparr>) qcA"
  define x where "x = pkt_pn pkt"
  define L where "L = largest_range ctx"
  define F where "F = first_range ctx"
  have vA: "acc_view (send_ctx qcA k) = acc_view ctx" by (simp add: qcA_def ctx_def)
  have vB: "acc_view (send_ctx qcB k) = acc_view ctx" using vA by (simp add: qcB_def)
  note eA = acc_view_eq[OF vA] and eB = acc_view_eq[OF vB]
  have set': "L \<noteq> NGX_QUIC_UNSET_PN" using set by (simp add: L_def ctx_def k_def)
  have ok': "acc_ok ctx" using ok by (simp add: ctx_def k_def)
  have okc: "chain_ok (unat L + 2) (ext ctx)" using ok' set' by (simp add: acc_ok_def L_def)
  have okB: "chain_ok (unat (largest_range (send_ctx qcB k)) + 2) (ext (send_ctx qcB k))"
    using okc eB by (simp add: L_def)
  have pns: "acc_pns ctx = chain_pns (unat L + 2) (ext ctx)"
    using set' by (simp add: acc_pns_def L_def)
  have f0: "fits (unat L + 2) \<lparr>gap = 0, range' = F\<rparr>"
    using okc by (simp add: ext_def F_def)
  note fe = first_entry[OF f0]
  have "chain_end (unat L + 2) (ext ctx) \<in> acc_pns ctx"
    unfolding pns by (rule chain_end_in_pns[OF okc]) (simp add: ext_def)
  then have below: "unat x + 1 < chain_end (unat L + 2) (ext ctx)"
    using old by (simp add: x_def ctx_def k_def)
  have "chain_end (unat L + 2) (ext ctx) \<le> chain_end (unat L + 2) (take (Suc 0) (ext ctx))"
    by (rule chain_end_take_le[OF okc])
  then have xs: "unat x + 1 < unat L - unat F"
    using below fe by (simp add: ext_def F_def[symmetric])
  have xL: "\<not> x > L" "L \<noteq> x" "\<not> (x \<ge> L - F \<and> x \<le> L)"
    using xs fe by (auto simp: word_less_nat_alt word_le_nat_alt)
  have unfold: "ngx_quic_ack_packet N now qc pkt
      = ngx_quic_ack_lookup N now pkt pp k qcB 0 (L - F)"
    unfolding ngx_quic_ack_packet_def Let_def k_def[symmetric] if_P[OF need]
      qcA_def[symmetric] qcB_def[symmetric] x_def[symmetric] pp_def[symmetric]
      eA(1) eA(6) L_def[symmetric] F_def[symmetric]
      if_not_P[OF set'] if_not_P[OF xL(2)] if_not_P[OF xL(1)] if_not_P[OF xL(3)]
    by (rule refl)
  have sm: "unat (L - F) = chain_end (unat (largest_range (send_ctx qcB k)) + 2)
                  (take (Suc 0) (ext (send_ctx qcB k)))"
    using fe eB by (simp add: ext_def F_def L_def)
  have below': "unat (pkt_pn pkt) + 1
                 < chain_end (unat (largest_range (send_ctx qcB k)) + 2) (ext (send_ctx qcB k))"
    using below eB by (simp add: x_def L_def)
  obtain sm' where sm': "unat sm' = chain_end (unat (largest_range (send_ctx qcB k)) + 2) (ext (send_ctx qcB k))"
    and lk: "ngx_quic_ack_lookup N now pkt pp k qcB 0 (L - F)
              = ngx_quic_ack_tail N pkt k qcB (nranges (send_ctx qcB k)) sm'"
    using ack_lookup_below[OF okB _ sm below', of N now pp] by auto
  have "unat (sm' - 1) = unat sm' - 1"
    by (rule unat_sub1) (use sm' below' in linarith)
  then have ne: "pkt_pn pkt \<noteq> sm' - 1" using sm' below' by auto
  have fullB: "nranges (send_ctx qcB k) = N" using full eB by (simp add: ctx_def k_def)
  have tail: "ngx_quic_ack_tail N pkt k qcB (nranges (send_ctx qcB k)) sm'
              = ngx_quic_send_ack_range k qcB (pkt_pn pkt) (pkt_pn pkt)"
    using ne fullB need by (simp add: ngx_quic_ack_tail_def Let_def)
  have res: "ngx_quic_ack_packet N now qc pkt
              = ngx_quic_send_ack_range k qcB (pkt_pn pkt) (pkt_pn pkt)"
    unfolding unfold lk tail ..
  have ctxs: "send_ctx (snd (ngx_quic_ack_packet N now qc pkt)) = send_ctx qcB"
    unfolding res by (rule send_ack_range_ctx)
  have fr: "frames (send_ctx qcB j) = frames (send_ctx qc j)" for j
    by (simp add: qcB_def qcA_def ctx_update_def ngx_quic_ack_pending_def Let_def)
  have mem: "free_frames qcB = free_frames qc" "mem qcB = mem qc"
    by (simp_all add: qcB_def qcA_def ctx_update_def)
  show ?thesis
    unfolding k_def[symmetric] ctxs
    using fr eB send_ack_range_rc[of k qcB "pkt_pn pkt" "pkt_pn pkt"] mem
    by (simp add: res ctx_def)
qed

theorem C1_too_old_ack_not_queued_witness:
  "acc_ok (send_ctx full_conn 2)
   \<and> largest_range (send_ctx full_conn 2) \<noteq> NGX_QUIC_UNSET_PN
   \<and> nranges (send_ctx full_conn 2) = 2
   \<and> pkt_need_ack (sample_pkt 10 True)
   \<and> acc_pns (send_ctx full_conn 2) = {80, 90, 100}
   \<and> unat (pkt_pn (sample_pkt 10 True)) = 10
   \<and> ngx_quic_get_send_ctx (pkt_level (sample_pkt 10 True)) = 2
   \<and> frames (send_ctx (snd (ngx_quic_ack_packet 2 1000 full_conn (sample_pkt 10 True))) 2) = []
   \<and> ranges (send_ctx (snd (ngx_quic_ack_packet 2 1000 full_conn (sample_pkt 10 True))) 2)
       = [\<lparr>gap = 8, range' = 0\<rparr>, \<lparr>gap = 8, range' = 0\<rparr>]
   \<and> fst (ngx_quic_ack_packet 2 1000 full_conn (sample_pkt 10 True)) = NGX_OK"
proof -
  have k: "ngx_quic_get_send_ctx (pkt_level (sample_pkt 10 True)) = 2"
    by (simp add: sample_defs)
  have h1: "acc_ok (send_ctx full_conn (ngx_quic_get_send_ctx (pkt_level (sample_pkt 10 True))))"
    by (simp add: sample_defs acc_ok_def ext_def fits_def lo_of_def)
  have h2: "largest_range (send_ctx full_conn (ngx_quic_get_send_ctx (pkt_level (sample_pkt 10 True))))
             \<noteq> NGX_QUIC_UNSET_PN"
    by (simp add: sample_defs)
  have h3: "nranges (send_ctx full_conn (ngx_quic_get_send_ctx (pkt_level (sample_pkt 10 True)))) = 2"
    by (simp add: sample_defs)
  have h4: "pkt_need_ack (sample_pkt 10 True)" by (simp add: sample_defs)
  have h5: "\<forall>x \<in> acc_pns (send_ctx full_conn (ngx_quic_get_send_ctx (pkt_level (sample_pkt 10 True)))).
                 unat (pkt_pn (sample_pkt 10 True)) + 1 < x"
    by (simp add: sample_defs acc_pns_def ext_def lo_of_def hi_of_def)
  have f: "frames (send_ctx full_conn 2) = []"
    and r: "ranges (send_ctx full_conn 2) = [\<lparr>gap = 8, range' = 0\<rparr>, \<lparr>gap = 8, range' = 0\<rparr>]"
    and m: "mem full_conn = 64"
    by (simp_all add: sample_defs)
  have p: "acc_pns (send_ctx full_conn 2) = {80, 90, 100}"
    by (auto simp: sample_defs acc_pns_def ext_def lo_of_def hi_of_def)
  have u: "unat (pkt_pn (sample_pkt 10 True)) = 10"
    by (simp add: sample_defs)
  from C1_too_old_ack_not_queued[OF h1 h2 h3 h4 h5, of 1000] h1 h2 h3 h4 f r m p u
  show ?thesis unfolding k by simp
qed

subsection \<open>Independence of the arrival order\<close>




section \<open>Verification: congestion control\<close>

lemma mtu2:
  fixes m :: u64
  assumes "m \<le> 65527"
  shows "unat (m * 2) = 2 * unat m"
proof -
  have "unat m \<le> 65527" using assms by (simp add: word_le_nat_alt)
  then have "unat m * unat (2 :: u64) < 2 ^ LENGTH(64)" by simp
  then have "unat (m * 2) = unat m * unat (2 :: u64)" by (simp only: unat_mult_lem)
  then show ?thesis by simp
qed

lemma lost_inv:
  assumes mtu: "max_udp_payload_size (tp qc) \<le> 65527" and inv: "cc_inv qc"
  shows "cc_inv (fst (ngx_quic_congestion_lost now qc f))"
    and "tp (fst (ngx_quic_congestion_lost now qc f)) = tp qc"
proof -
  have m2: "unat (max_udp_payload_size (tp qc) * 2) = 2 * unat (max_udp_payload_size (tp qc))"
    using mtu by (rule mtu2)
  have mb: "unat (max_udp_payload_size (tp qc)) \<le> 65527" using mtu by (simp add: word_le_nat_alt)
  have d: "unat (window (congestion qc) div 2) = unat (window (congestion qc)) div 2"
    by (simp add: unat_div)
  show "cc_inv (fst (ngx_quic_congestion_lost now qc f))"
    using inv m2 mb d u64_lt[of "window (congestion qc)"]
    by (auto simp: ngx_quic_congestion_lost_def Let_def cc_inv_def cc_floor_def word_less_nat_alt
        word_le_nat_alt)
  show "tp (fst (ngx_quic_congestion_lost now qc f)) = tp qc"
    by (simp add: ngx_quic_congestion_lost_def Let_def)
qed


lemma ack_inv:
  assumes mtu0: "0 < max_udp_payload_size (tp qc)"
    and mtu: "max_udp_payload_size (tp qc) \<le> 65527"
    and plen: "f_plen f \<le> 65527"
    and inv: "cc_inv qc"
  shows "\<exists>qc1. ngx_quic_congestion_ack now qc f = Some qc1 \<and> cc_inv qc1 \<and> tp qc1 = tp qc"
proof -
  define w where "w = window (congestion qc)"
  define m where "m = max_udp_payload_size (tp qc)"
  define q where "q = m * f_plen f div w"
  have mb: "unat m \<le> 65527" "0 < unat m"
    using mtu mtu0 by (simp_all add: m_def word_le_nat_alt word_less_nat_alt)
  have pb: "unat (f_plen f) \<le> 65527" using plen by (simp add: word_le_nat_alt)
  have fl: "2 * unat m \<le> unat w" and st: "ssthresh (congestion qc) \<le> w"
    and wb: "unat w < 2 ^ 63"
    using inv by (simp_all add: cc_inv_def cc_floor_def w_def m_def)
  have w0: "w \<noteq> 0" using fl mb by (auto simp: )
  have nss: "\<not> w < ssthresh (congestion qc)" using st by simp
  have "unat m * unat (f_plen f) \<le> 65527 * 65527" using mb pb by (intro mult_mono) simp_all
  then have prod: "unat m * unat (f_plen f) < 2 ^ 32" by simp
  then have "unat m * unat (f_plen f) < 2 ^ LENGTH(64)" by simp
  then have um: "unat (m * f_plen f) = unat m * unat (f_plen f)" by (simp only: unat_mult_lem)
  have uq: "unat q = unat m * unat (f_plen f) div unat w"
    by (simp add: q_def unat_div um)
  have qb: "unat q < 2 ^ 32" unfolding uq using prod by (meson div_le_dividend le_less_trans)
  have "unat w + unat q < 2 ^ LENGTH(64)" using wb qb by simp
  then have sum: "unat (w + q) = unat w + unat q" by (simp only: unat_add_lem)
  have big: "unat w + unat q < 2 ^ 63"
  proof (cases "unat w < 2 ^ 32")
    case True then show ?thesis using qb by simp
  next
    case False
    then have "unat m * unat (f_plen f) < unat w" using prod by simp
    then have "unat q = 0" unfolding uq by simp
    then show ?thesis using wb by simp
  qed
  define cg1 where "cg1 = (congestion qc)\<lparr>in_flight := in_flight (congestion qc) - f_plen f,
                                            window := w + q\<rparr>"
  have inv1: "cc_inv (qc\<lparr>congestion := cg1\<lparr>recovery_start := r\<rparr>\<rparr>)"
     "cc_inv (qc\<lparr>congestion := cg1\<rparr>)" for r
    using fl st sum big
    by (simp_all add: cc_inv_def cc_floor_def cg1_def m_def[symmetric] word_le_nat_alt)
  have inv0: "cc_inv (qc\<lparr>congestion := (congestion qc)\<lparr>in_flight := x\<rparr>\<rparr>)" for x
    using inv by (simp add: cc_inv_def cc_floor_def)
  show ?thesis
  proof (cases "f_plen f = 0")
    case True
    then show ?thesis using inv by (simp add: ngx_quic_congestion_ack_def)
  next
    case False
    show ?thesis
    proof (cases "sint (f_last f - recovery_start (congestion qc)) \<le> 0")
      case True
      then show ?thesis using False inv0
        by (simp add: ngx_quic_congestion_ack_def Let_def)
    next
      case rec: False
      have "ngx_quic_congestion_ack now qc f =
              (let timer1 = recovery_start cg1 - now + max_idle_timeout (tp qc) * 2
               in if sint timer1 < 0
                  then Some (qc\<lparr>congestion :=
                        cg1\<lparr>recovery_start := now - max_idle_timeout (tp qc) * 2\<rparr>\<rparr>)
                  else Some (qc\<lparr>congestion := cg1\<rparr>))"
        using False rec nss w0
        by (simp add: ngx_quic_congestion_ack_def Let_def cg1_def w_def[symmetric]
            m_def[symmetric] q_def[symmetric])
      then show ?thesis using inv1 by (simp add: Let_def)
    qed
  qed
qed

lemma cc_run_inv:
  assumes mtu0: "0 < max_udp_payload_size (tp qc)"
    and mtu: "max_udp_payload_size (tp qc) \<le> 65527"
    and plen: "list_all (\<lambda>e. f_plen (cc_frame e) \<le> 65527) es"
    and inv: "cc_inv qc"
  shows "\<exists>qc1. cc_run qc es = Some qc1 \<and> cc_inv qc1 \<and> tp qc1 = tp qc"
  using assms
proof (induction es arbitrary: qc)
  case Nil
  then show ?case by simp
next
  case (Cons e es)
  have pe: "f_plen (cc_frame e) \<le> 65527"
    and pes: "list_all (\<lambda>e. f_plen (cc_frame e) \<le> 65527) es"
    using Cons.prems(3) by simp_all
  have "\<exists>qc1. cc_step qc e = Some qc1 \<and> cc_inv qc1 \<and> tp qc1 = tp qc"
  proof (cases e)
    case (Acked now f)
    then show ?thesis using ack_inv[OF Cons.prems(1,2) _ Cons.prems(4), of f now] pe by simp
  next
    case (Lost now f)
    then show ?thesis using lost_inv[OF Cons.prems(2,4), of now f] by simp
  qed
  then obtain qc1 where s: "cc_step qc e = Some qc1" and i1: "cc_inv qc1" and t1: "tp qc1 = tp qc"
    by blast
  have "\<exists>qc2. cc_run qc1 es = Some qc2 \<and> cc_inv qc2 \<and> tp qc2 = tp qc1"
    using Cons.IH[OF _ _ pes i1] Cons.prems(1,2) t1 by simp
  then show ?case using s t1 by auto
qed

lemma list_all_take: "list_all P xs \<Longrightarrow> list_all P (take n xs)"
  by (metis append_take_drop_id list_all_append)




section \<open>Verification: acknowledged ranges\<close>

lemma ack_frame_range_loop_none:
  assumes "\<forall>f \<in> set (take i (sent (send_ctx qc k))). \<not> (mn \<le> f_pnum f \<and> f_pnum f \<le> mx)"
    and "i \<le> length (sent (send_ctx qc k))"
  shows "ngx_quic_handle_ack_frame_range_loop bufsize now k mn mx i (qc, fd, fn, st)
         = Some (qc, fd, fn, st)"
  using assms
proof (induction i)
  case 0
  then show ?case by simp
next
  case (Suc i)
  have i: "i < length (sent (send_ctx qc k))" using Suc.prems(2) by simp
  have "sent (send_ctx qc k) ! i \<in> set (take (Suc i) (sent (send_ctx qc k)))"
    using i by (simp add: take_Suc_conv_app_nth)
  then have no: "\<not> (mn \<le> f_pnum (sent (send_ctx qc k) ! i) \<and> f_pnum (sent (send_ctx qc k) ! i) \<le> mx)"
    using Suc.prems(1) by blast
  have "\<forall>f \<in> set (take i (sent (send_ctx qc k))). \<not> (mn \<le> f_pnum f \<and> f_pnum f \<le> mx)"
    using Suc.prems(1) i by (simp add: take_Suc_conv_app_nth)
  then have "ngx_quic_handle_ack_frame_range_loop bufsize now k mn mx i (qc, fd, fn, st)
             = Some (qc, fd, fn, st)"
    using Suc.IH i by simp
  then show ?case using no by (auto simp: Let_def)
qed

text \<open>
  Claim C9. When no frame of the sent queue has its packet number in the range
  \<open>[mn, mx]\<close>, the connection, and so the sent queue, is left as it was and the result is
  \<^verbatim>\<open>NGX_OK\<close> if \<open>mx\<close> is below the next packet number of the space; otherwise the result is
  \<^verbatim>\<open>NGX_ERROR\<close> and the only change is the error slot: \<^verbatim>\<open>PROTOCOL_VIOLATION\<close>, raised by a
  frame of type ACK.
\<close>

theorem C9_ack_range_not_found:
  assumes "\<forall>f \<in> set (sent (send_ctx qc k)). \<not> (mn \<le> f_pnum f \<and> f_pnum f \<le> mx)"
  shows "ngx_quic_handle_ack_frame_range bufsize now k qc mn mx
         = Some (if mx < pnum (send_ctx qc k)
                 then (NGX_OK, qc, NGX_TIMER_INFINITE)
                 else (NGX_ERROR,
                       qc\<lparr>error := NGX_QUIC_ERR_PROTOCOL_VIOLATION,
                          error_ftype := NGX_QUIC_FT_ACK,
                          error_reason := ''unknown packet number''\<rparr>,
                       NGX_TIMER_INFINITE))"
  using ack_frame_range_loop_none[of "length (sent (send_ctx qc k))" qc k mn mx bufsize now
          False 0 NGX_TIMER_INFINITE] assms
  by (simp add: ngx_quic_handle_ack_frame_range_def)

theorem C9_ack_range_not_found_witness:
  "map f_pnum (sent (send_ctx ack_sample_conn 2)) = [3, 5]
   \<and> pnum (send_ctx ack_sample_conn 2) = 6
   \<and> ngx_quic_handle_ack_frame_range 65536 2000 2 ack_sample_conn 4 4
       = Some (NGX_OK, ack_sample_conn, NGX_TIMER_INFINITE)
   \<and> ngx_quic_handle_ack_frame_range 65536 2000 2 ack_sample_conn 6 9
       = Some (NGX_ERROR,
               ack_sample_conn\<lparr>error := 0xA, error_ftype := 2,
                  error_reason := ''unknown packet number''\<rparr>,
               NGX_TIMER_INFINITE)"
  using C9_ack_range_not_found [of ack_sample_conn 2 4 4 65536 2000]
    C9_ack_range_not_found [of ack_sample_conn 2 6 9 65536 2000]
  by (simp add: ack_sample_conn_def sample_defs zero_frame_def
      NGX_QUIC_ERR_PROTOCOL_VIOLATION_def NGX_QUIC_FT_ACK_def)

section \<open>Verification: streams opened by the client\<close>


lemma and3_mod: "unat ((x :: u64) AND 3) = unat x mod 4"
proof -
  have "x AND 3 = x AND mask 2" by (simp add: mask_numeral)
  also have "\<dots> = take_bit 2 x" by (simp only: take_bit_eq_mask)
  finally have "unat (x AND 3) = unat (take_bit 2 x)" by simp
  also have "\<dots> = take_bit 2 (unat x)" by (simp only: unsigned_take_bit_eq)
  also have "\<dots> = unat x mod 4" by (simp add: take_bit_eq_mod)
  finally show ?thesis .
qed

lemma shr2_div: "unat (drop_bit 2 (x :: u64)) = unat x div 4"
  by (simp add: unat_drop_bit_eq drop_bit_eq_div unat_div)

lemma and1_mod: "unat ((x :: u64) AND 1) = unat x mod 2"
  by (simp add: and_one_eq unat_mod)

lemma and2_bit: "((x :: u64) AND 2 = 0) = (unat x div 2 mod 2 = 0)"
proof -
  have "(x AND 2 = 0) = (\<not> bit x 1)"
    using and_exp_eq_0_iff_not_bit[of x 1] by simp
  also have "\<dots> = (\<not> bit (unat x) 1)" by (simp add: bit_unsigned_iff)
  also have "\<dots> = (unat x div 2 mod 2 = 0)"
    by (simp add: bit_iff_odd even_iff_mod_2_eq_zero)
  finally show ?thesis .
qed

lemma or2: "unat (x :: u64) mod 4 = 0 \<Longrightarrow> x OR 2 = x + 2"
proof -
  assume a: "unat x mod 4 = 0"
  have "unat x div 2 mod 2 = 0" using a by presburger
  then have "x AND 2 = 0" by (simp only: and2_bit)
  then show "x OR 2 = x + 2" by (simp only: disjunctive_add_eq_or)
qed

lemma shl2: "unat cs < 2 ^ 62 \<Longrightarrow> unat (push_bit 2 (cs :: u64)) = 4 * unat cs"
  by (simp add: push_bit_eq_mult unat_mult_lem[THEN iffD1])

text \<open>The type bits of an identifier that the client initiated.\<close>

lemma type_bits:
  assumes "(sid :: u64) AND NGX_QUIC_STREAM_SERVER_INITIATED = 0"
  shows "sid AND 3 = (if sid AND NGX_QUIC_STREAM_UNIDIRECTIONAL \<noteq> 0 then 2 else 0)"
proof -
  have m2: "unat sid mod 2 = 0"
    using assms and1_mod[of sid] by (simp add: NGX_QUIC_STREAM_SERVER_INITIATED_def)
  have b: "(sid AND NGX_QUIC_STREAM_UNIDIRECTIONAL = 0) = (unat sid div 2 mod 2 = 0)"
    by (simp only: NGX_QUIC_STREAM_UNIDIRECTIONAL_def and2_bit)
  show ?thesis
  proof (cases "sid AND NGX_QUIC_STREAM_UNIDIRECTIONAL = 0")
    case True
    then have "unat sid div 2 mod 2 = 0" by (simp only: b)
    then have "unat sid mod 4 = 0" using m2 by presburger
    then have "unat (sid AND 3) = unat (0 :: u64)" by (simp add: and3_mod)
    then have "sid AND 3 = 0" by (simp only: word_unat_eq_iff)
    then show ?thesis using True by simp
  next
    case False
    then have "unat sid div 2 mod 2 \<noteq> 0" using b by simp
    then have "unat sid mod 4 = 2" using m2 by presburger
    then have "unat (sid AND 3) = unat (2 :: u64)" by (simp add: and3_mod)
    then have "sid AND 3 = 2" by (simp only: word_unat_eq_iff)
    then show ?thesis using False by simp
  qed
qed

lemma id_split: "unat (sid :: u64) = 4 * unat (drop_bit 2 sid) + unat (sid AND 3)"
  by (simp add: shr2_div and3_mod)

text \<open>The first identifier of the loop, for a counter not above the number of \<open>sid\<close>.\<close>

lemma min_id_eq:
  assumes client: "(sid :: u64) AND NGX_QUIC_STREAM_SERVER_INITIATED = 0"
    and le: "cs \<le> drop_bit 2 sid"
  shows "(if sid AND NGX_QUIC_STREAM_UNIDIRECTIONAL \<noteq> 0
          then push_bit 2 cs OR NGX_QUIC_STREAM_UNIDIRECTIONAL else push_bit 2 cs)
         = 4 * cs + (sid AND 3)"
    and "unat (4 * cs + (sid AND 3)) + 4 * (unat (drop_bit 2 sid) - unat cs) = unat sid"
proof -
  have lt: "unat sid < 18446744073709551616" by (rule u64_lt)
  have le': "unat cs \<le> unat (drop_bit 2 sid)" using le by (simp add: word_le_nat_alt)
  have "unat (drop_bit 2 sid) < 2 ^ 62" using lt by (simp add: shr2_div)
  then have cs: "unat cs < 2 ^ 62" using le' by simp
  have p: "unat (push_bit 2 cs) = 4 * unat cs" using cs by (rule shl2)
  have p4: "push_bit 2 cs = 4 * cs" by (simp add: push_bit_eq_mult)
  have "unat (push_bit 2 cs) mod 4 = 0" unfolding p by simp
  then have o: "push_bit 2 cs OR 2 = push_bit 2 cs + 2" by (rule or2)
  show "(if sid AND NGX_QUIC_STREAM_UNIDIRECTIONAL \<noteq> 0
          then push_bit 2 cs OR NGX_QUIC_STREAM_UNIDIRECTIONAL else push_bit 2 cs)
         = 4 * cs + (sid AND 3)"
    unfolding type_bits[OF client] using o p4
    by (simp add: NGX_QUIC_STREAM_UNIDIRECTIONAL_def)
  have t3: "unat (sid AND 3) \<le> 3" by (simp add: and3_mod)
  have "unat (push_bit 2 cs) + unat (sid AND 3) < 2 ^ LENGTH(64)"
    unfolding p using cs t3 by simp
  then have "unat (push_bit 2 cs + (sid AND 3)) = unat (push_bit 2 cs) + unat (sid AND 3)"
    by (simp only: unat_add_lem)
  then have "unat (4 * cs + (sid AND 3)) = 4 * unat cs + unat (sid AND 3)"
    using p by (simp add: p4)
  then show "unat (4 * cs + (sid AND 3)) + 4 * (unat (drop_bit 2 sid) - unat cs) = unat sid"
    using id_split[of sid] le' by simp
qed

lemma create_stream_some:
  assumes "6 \<le> mem qc"
  shows "\<exists>sn. ngx_quic_create_stream qc i n
           = (Some sn, qc\<lparr>mem := mem qc - 6,
                            streams := (streams qc)\<lparr>tree := tree (streams qc) @ [sn]\<rparr>\<rparr>)
         \<and> qs_id sn = i"
  using assms by (simp add: ngx_quic_create_stream_def Let_def)

lemma create_client_stream_loop_ok:
  assumes "unat min_id + 4 * c = unat sid" and "6 * (c + 1) \<le> mem qc"
  shows "\<exists>sn qc1. ngx_quic_create_client_stream_loop qc min_id sid n = (STREAM sn, qc1)
           \<and> qs_id sn = sid
           \<and> map qs_id (tree (streams qc1))
               = map qs_id (tree (streams qc)) @ map (\<lambda>j. min_id + 4 * of_nat j) [0..<Suc c]
           \<and> accepted qc1 = accepted qc @ map (\<lambda>j. min_id + 4 * of_nat j) [0..<c]
           \<and> streams qc1 = (streams qc)\<lparr>tree := tree (streams qc1)\<rparr>
           \<and> error qc1 = error qc"
  using assms
proof (induction c arbitrary: qc min_id)
  case 0
  then have e: "min_id = sid" by (simp add: word_unat_eq_iff)
  have m: "6 \<le> mem qc" using 0 by simp
  obtain sn where sn: "ngx_quic_create_stream qc sid n
           = (Some sn, qc\<lparr>mem := mem qc - 6,
                            streams := (streams qc)\<lparr>tree := tree (streams qc) @ [sn]\<rparr>\<rparr>)"
        and i: "qs_id sn = sid"
    using create_stream_some[OF m] by blast
  show ?case
    by (subst ngx_quic_create_client_stream_loop.simps) (simp add: e sn i)
next
  case (Suc c)
  have lt: "min_id < sid" using Suc.prems(1) by (simp add: word_less_nat_alt)
  have m: "6 \<le> mem qc" using Suc.prems(2) by simp
  obtain sn where sn: "ngx_quic_create_stream qc min_id n
           = (Some sn, qc\<lparr>mem := mem qc - 6,
                            streams := (streams qc)\<lparr>tree := tree (streams qc) @ [sn]\<rparr>\<rparr>)"
        and i: "qs_id sn = min_id"
    using create_stream_some[OF m] by blast
  define qa where "qa = qc\<lparr>mem := mem qc - 6,
      streams := (streams qc)\<lparr>tree := tree (streams qc) @ [sn]\<rparr>,
      accepted := accepted qc @ [min_id]\<rparr>"
  have step: "ngx_quic_create_client_stream_loop qc min_id sid n
              = ngx_quic_create_client_stream_loop qa (min_id + 4) sid n"
    by (subst ngx_quic_create_client_stream_loop.simps) (simp add: lt sn i qa_def)
  have "unat min_id + 4 < 2 ^ LENGTH(64)"
    using Suc.prems(1) u64_lt[of sid] by simp
  then have u: "unat (min_id + 4) = unat min_id + 4"
    using unat_add_lem[of min_id 4] by simp
  have p1: "unat (min_id + 4) + 4 * c = unat sid" using Suc.prems(1) u by simp
  have p2: "6 * (c + 1) \<le> mem qa" using Suc.prems(2) by (simp add: qa_def)
  obtain sn1 qc1 where r: "ngx_quic_create_client_stream_loop qa (min_id + 4) sid n = (STREAM sn1, qc1)"
    and r1: "qs_id sn1 = sid"
    and r2: "map qs_id (tree (streams qc1))
               = map qs_id (tree (streams qa)) @ map (\<lambda>j. min_id + 4 + 4 * of_nat j) [0..<Suc c]"
    and r3: "accepted qc1 = accepted qa @ map (\<lambda>j. min_id + 4 + 4 * of_nat j) [0..<c]"
    and r4: "streams qc1 = (streams qa)\<lparr>tree := tree (streams qc1)\<rparr>"
    and r5: "error qc1 = error qa"
    using Suc.IH[OF p1 p2] by blast
  have sh: "map (\<lambda>j. min_id + 4 * of_nat j) [0..<Suc k]
            = min_id # map (\<lambda>j. min_id + 4 + 4 * of_nat j) [0..<k]" for k
  proof -
    have "[0..<Suc k] = 0 # map Suc [0..<k]" by (simp only: upt_conv_Cons map_Suc_upt)
    then have "map (\<lambda>j. min_id + 4 * of_nat j) [0..<Suc k]
               = min_id # map ((\<lambda>j. min_id + 4 * of_nat j) \<circ> Suc) [0..<k]"
      by (simp only: list.map map_map) simp
    also have "(\<lambda>j. min_id + 4 * of_nat j) \<circ> Suc = (\<lambda>j. min_id + 4 + 4 * of_nat j)"
      by (rule ext) (simp add: algebra_simps)
    finally show ?thesis .
  qed
  have t: "map qs_id (tree (streams qc1))
           = map qs_id (tree (streams qc)) @ map (\<lambda>j. min_id + 4 * of_nat j) [0..<Suc (Suc c)]"
    unfolding sh[of "Suc c"] r2 by (simp add: qa_def i)
  have a: "accepted qc1 = accepted qc @ map (\<lambda>j. min_id + 4 * of_nat j) [0..<Suc c]"
    unfolding sh[of c] r3 by (simp add: qa_def)
  have s: "streams qc1 = (streams qc)\<lparr>tree := tree (streams qc1)\<rparr>"
    using r4 by (simp add: qa_def)
  have e: "error qc1 = error qc" using r5 by (simp add: qa_def)
  show ?case unfolding step r using r1 t a s e by simp
qed

lemma stream_ids_from:
  "map (\<lambda>j. 4 * cs + (sid AND 3) + 4 * of_nat j) [0..<c]
   = stream_ids sid (unat (cs :: u64)) (unat cs + c)"
proof -
  have "[unat cs..<unat cs + c] = map (\<lambda>j. j + unat cs) [0..<c]"
    using map_add_upt[of "unat cs" c] by (simp add: add.commute)
  then have "stream_ids sid (unat cs) (unat cs + c)
             = map ((\<lambda>j. of_nat (4 * j) + (sid AND 3)) \<circ> (\<lambda>j. j + unat cs)) [0..<c]"
    by (simp only: stream_ids_def map_map)
  also have "(\<lambda>j. of_nat (4 * j) + (sid AND 3)) \<circ> (\<lambda>j. j + unat cs)
             = (\<lambda>j. 4 * cs + (sid AND 3) + 4 * of_nat j)"
    by (rule ext) (simp add: algebra_simps)
  finally show ?thesis by (rule sym)
qed


lemma create_client_stream_loop_from:
  assumes client: "(sid :: u64) AND NGX_QUIC_STREAM_SERVER_INITIATED = 0"
    and le: "cs \<le> drop_bit 2 sid"
    and m: "6 * (unat (drop_bit 2 sid) - unat cs + 1) \<le> mem qc"
  shows "\<exists>sn qc1. ngx_quic_create_client_stream_loop qc (4 * cs + (sid AND 3)) sid n
                     = (STREAM sn, qc1)
           \<and> qs_id sn = sid
           \<and> map qs_id (tree (streams qc1))
               = map qs_id (tree (streams qc))
                 @ stream_ids sid (unat cs) (Suc (unat (drop_bit 2 sid)))
           \<and> accepted qc1 = accepted qc @ stream_ids sid (unat cs) (unat (drop_bit 2 sid))
           \<and> streams qc1 = (streams qc)\<lparr>tree := tree (streams qc1)\<rparr>
           \<and> error qc1 = error qc"
proof -
  define c where "c = unat (drop_bit 2 sid) - unat cs"
  have le': "unat cs \<le> unat (drop_bit 2 sid)" using le by (simp add: word_le_nat_alt)
  have e1: "unat cs + c = unat (drop_bit 2 sid)" using le' by (simp add: c_def)
  have e2: "unat cs + Suc c = Suc (unat (drop_bit 2 sid))" using le' by (simp add: c_def)
  have d: "unat (4 * cs + (sid AND 3)) + 4 * c = unat sid"
    unfolding c_def using client le by (rule min_id_eq(2))
  have m': "6 * (c + 1) \<le> mem qc" using m by (simp add: c_def)
  show ?thesis
    using create_client_stream_loop_ok[OF d m', of n]
    unfolding stream_ids_from e1 e2 .
qed

text \<open>
  Claim C7. For an identifier \<open>sid\<close> that the client initiated, say of number
  \<open>sid >> 2\<close>, in a connection whose counter of client streams of that type does not
  exceed its limit: when the number is at or above the limit, no stream is created and
  the only change is the error \<^verbatim>\<open>STREAM_LIMIT_ERROR\<close>. When the number is below the limit
  and not below the counter (none of the streams from the counter on was created yet),
  and the allocator budget covers the streams to create, the stream \<open>sid\<close> is returned
  and the tree has gained exactly the streams of that type with the numbers from the
  counter to the number of \<open>sid\<close>, in this order; the listening handler was called for
  each of them but the last, and the counter is one above the number of \<open>sid\<close>.
\<close>

theorem C7_create_client_stream:
  assumes client: "sid AND NGX_QUIC_STREAM_SERVER_INITIATED = 0"
  shows "(client_streams qc sid \<le> client_max_streams qc sid
          \<and> client_max_streams qc sid \<le> drop_bit 2 sid
          \<longrightarrow> ngx_quic_create_client_stream bufsize qc sid
                = (STREAM_NULL, qc\<lparr>error := NGX_QUIC_ERR_STREAM_LIMIT_ERROR\<rparr>))
       \<and> (client_streams qc sid \<le> drop_bit 2 sid
          \<and> drop_bit 2 sid < client_max_streams qc sid
          \<and> 6 * (unat (drop_bit 2 sid) - unat (client_streams qc sid) + 1) \<le> mem qc
          \<longrightarrow> (\<exists>sn qc1. ngx_quic_create_client_stream bufsize qc sid = (STREAM sn, qc1)
                 \<and> qs_id sn = sid
                 \<and> map qs_id (tree (streams qc1))
                     = map qs_id (tree (streams qc))
                       @ stream_ids sid (unat (client_streams qc sid))
                           (Suc (unat (drop_bit 2 sid)))
                 \<and> accepted qc1
                     = accepted qc
                       @ stream_ids sid (unat (client_streams qc sid)) (unat (drop_bit 2 sid))
                 \<and> client_streams qc1 sid = drop_bit 2 sid + 1))"
proof (intro conjI impI)
  assume a: "client_streams qc sid \<le> client_max_streams qc sid
          \<and> client_max_streams qc sid \<le> drop_bit 2 sid"
  then have n: "\<not> drop_bit 2 sid < client_streams qc sid" by auto
  show "ngx_quic_create_client_stream bufsize qc sid
             = (STREAM_NULL, qc\<lparr>error := NGX_QUIC_ERR_STREAM_LIMIT_ERROR\<rparr>)"
  proof (cases "sid AND NGX_QUIC_STREAM_UNIDIRECTIONAL \<noteq> 0")
    case True
    then show ?thesis using client a n
      by (simp add: ngx_quic_create_client_stream_def client_streams_def
          client_max_streams_def Let_def)
  next
    case False
    then show ?thesis using client a n
      by (simp add: ngx_quic_create_client_stream_def client_streams_def
          client_max_streams_def Let_def)
  qed
next
  assume a: "client_streams qc sid \<le> drop_bit 2 sid
          \<and> drop_bit 2 sid < client_max_streams qc sid
          \<and> 6 * (unat (drop_bit 2 sid) - unat (client_streams qc sid) + 1) \<le> mem qc"
  define cs where "cs = client_streams qc sid"
  have le: "cs \<le> drop_bit 2 sid" and lt: "drop_bit 2 sid < client_max_streams qc sid"
    and m: "6 * (unat (drop_bit 2 sid) - unat cs + 1) \<le> mem qc"
    using a by (simp_all add: cs_def)
  define qa where "qa = (if sid AND NGX_QUIC_STREAM_UNIDIRECTIONAL \<noteq> 0
      then qc\<lparr>streams := (streams qc)\<lparr>client_streams_uni := drop_bit 2 sid + 1\<rparr>\<rparr>
      else qc\<lparr>streams := (streams qc)\<lparr>client_streams_bidi := drop_bit 2 sid + 1\<rparr>\<rparr>)"
  define n where "n = (if sid AND NGX_QUIC_STREAM_UNIDIRECTIONAL \<noteq> 0
      then (if initial_max_stream_data_uni (tp qc) < bufsize then bufsize
            else initial_max_stream_data_uni (tp qc))
      else (if initial_max_stream_data_bidi_remote (tp qc) < bufsize then bufsize
            else initial_max_stream_data_bidi_remote (tp qc)))"
  have mi: "(if sid AND NGX_QUIC_STREAM_UNIDIRECTIONAL \<noteq> 0
          then push_bit 2 cs OR NGX_QUIC_STREAM_UNIDIRECTIONAL else push_bit 2 cs)
         = 4 * cs + (sid AND 3)"
    using client le by (rule min_id_eq(1))
  have run: "ngx_quic_create_client_stream bufsize qc sid
             = ngx_quic_create_client_stream_loop qa (4 * cs + (sid AND 3)) sid n"
  proof (cases "sid AND NGX_QUIC_STREAM_UNIDIRECTIONAL \<noteq> 0")
    case True
    have mi': "push_bit 2 (client_streams_uni (streams qc)) OR NGX_QUIC_STREAM_UNIDIRECTIONAL
               = 4 * cs + (sid AND 3)"
      using mi True by (simp add: cs_def client_streams_def)
    have ns: "\<not> sid AND NGX_QUIC_STREAM_SERVER_INITIATED \<noteq> 0" using client by simp
    have ng: "\<not> drop_bit 2 sid < client_streams_uni (streams qc)"
      using le True by (simp add: cs_def client_streams_def)
    have nl: "\<not> client_max_streams_uni (streams qc) \<le> drop_bit 2 sid"
      using lt True by (simp add: client_max_streams_def)
    show ?thesis
      by (simp only: ngx_quic_create_client_stream_def Let_def if_P[OF True] if_not_P[OF ns]
          if_not_P[OF ng] if_not_P[OF nl] mi' qa_def n_def)
  next
    case False
    have mi': "push_bit 2 (client_streams_bidi (streams qc)) = 4 * cs + (sid AND 3)"
      using mi False by (simp add: cs_def client_streams_def)
    have ns: "\<not> sid AND NGX_QUIC_STREAM_SERVER_INITIATED \<noteq> 0" using client by simp
    have ng: "\<not> drop_bit 2 sid < client_streams_bidi (streams qc)"
      using le False by (simp add: cs_def client_streams_def)
    have nl: "\<not> client_max_streams_bidi (streams qc) \<le> drop_bit 2 sid"
      using lt False by (simp add: client_max_streams_def)
    show ?thesis
      by (simp only: ngx_quic_create_client_stream_def Let_def if_not_P[OF False] if_not_P[OF ns]
          if_not_P[OF ng] if_not_P[OF nl] mi' qa_def n_def)
  qed
  have mq: "6 * (unat (drop_bit 2 sid) - unat cs + 1) \<le> mem qa"
    using m by (simp add: qa_def)
  obtain sn qc1 where
        r: "ngx_quic_create_client_stream_loop qa (4 * cs + (sid AND 3)) sid n = (STREAM sn, qc1)"
    and r1: "qs_id sn = sid"
    and r2: "map qs_id (tree (streams qc1))
               = map qs_id (tree (streams qa))
                 @ stream_ids sid (unat cs) (Suc (unat (drop_bit 2 sid)))"
    and r3: "accepted qc1 = accepted qa @ stream_ids sid (unat cs) (unat (drop_bit 2 sid))"
    and r4: "streams qc1 = (streams qa)\<lparr>tree := tree (streams qc1)\<rparr>"
    using create_client_stream_loop_from[OF client le mq, of n] by blast
  have t: "tree (streams qa) = tree (streams qc)" and ac: "accepted qa = accepted qc"
    by (simp_all add: qa_def)
  have "client_streams qc1 sid = client_streams qa sid"
    unfolding client_streams_def by (subst (1 2) r4) simp
  then have c: "client_streams qc1 sid = drop_bit 2 sid + 1"
    by (simp add: client_streams_def qa_def)
  show "\<exists>sn qc1. ngx_quic_create_client_stream bufsize qc sid = (STREAM sn, qc1)
                 \<and> qs_id sn = sid
                 \<and> map qs_id (tree (streams qc1))
                     = map qs_id (tree (streams qc))
                       @ stream_ids sid (unat (client_streams qc sid))
                           (Suc (unat (drop_bit 2 sid)))
                 \<and> accepted qc1
                     = accepted qc
                       @ stream_ids sid (unat (client_streams qc sid)) (unat (drop_bit 2 sid))
                 \<and> client_streams qc1 sid = drop_bit 2 sid + 1"
    unfolding run r cs_def[symmetric] using r1 r2 r3 c t ac by simp
qed


theorem C7_create_client_stream_witness:
  "(14 :: u64) AND NGX_QUIC_STREAM_SERVER_INITIATED = 0
   \<and> (10 :: u64) AND NGX_QUIC_STREAM_SERVER_INITIATED = 0
   \<and> client_streams sample_conn 14 = 0 \<and> client_max_streams sample_conn 14 = 3
   \<and> drop_bit 2 (14 :: u64) = 3 \<and> drop_bit 2 (10 :: u64) = 2
   \<and> mem sample_conn = 64
   \<and> ngx_quic_create_client_stream 65536 sample_conn 14
       = (STREAM_NULL, sample_conn\<lparr>error := 0x4\<rparr>)
   \<and> map qs_id (tree (streams (snd (ngx_quic_create_client_stream 65536 sample_conn 10))))
       = [2, 6, 10]
   \<and> accepted (snd (ngx_quic_create_client_stream 65536 sample_conn 10)) = [2, 6]
   \<and> client_streams (snd (ngx_quic_create_client_stream 65536 sample_conn 10)) 10 = 3"
proof -
  have c: "(14 :: u64) AND NGX_QUIC_STREAM_SERVER_INITIATED = 0"
    "(10 :: u64) AND NGX_QUIC_STREAM_SERVER_INITIATED = 0"
    by (simp_all add: NGX_QUIC_STREAM_SERVER_INITIATED_def)
  have u: "(14 :: u64) AND NGX_QUIC_STREAM_UNIDIRECTIONAL \<noteq> 0"
    "(10 :: u64) AND NGX_QUIC_STREAM_UNIDIRECTIONAL \<noteq> 0"
    by (simp_all add: NGX_QUIC_STREAM_UNIDIRECTIONAL_def)
  have d: "drop_bit 2 (14 :: u64) = 3" "drop_bit 2 (10 :: u64) = 2"
    by (simp_all add: drop_bit_eq_div)
  have s: "client_streams sample_conn 14 = 0" "client_max_streams sample_conn 14 = 3"
    "client_streams sample_conn 10 = 0" "client_max_streams sample_conn 10 = 3"
    "mem sample_conn = 64" "tree (streams sample_conn) = []" "accepted sample_conn = []"
    using u by (simp_all add: client_streams_def client_max_streams_def sample_defs)
  have a: "ngx_quic_create_client_stream 65536 sample_conn 14
           = (STREAM_NULL, sample_conn\<lparr>error := 0x4\<rparr>)"
    using C7_create_client_stream [OF c(1), of sample_conn 65536]
    by (simp add: s d NGX_QUIC_ERR_STREAM_LIMIT_ERROR_def)
  have i: "stream_ids 10 0 3 = [2, 6, 10]" "stream_ids 10 0 2 = [2, 6]"
    by (simp_all add: stream_ids_def upt_rec)
  have "\<exists>sn qc1. ngx_quic_create_client_stream 65536 sample_conn 10 = (STREAM sn, qc1)
          \<and> qs_id sn = 10 \<and> map qs_id (tree (streams qc1)) = [2, 6, 10] \<and> accepted qc1 = [2, 6]
          \<and> client_streams qc1 10 = 3"
    using C7_create_client_stream [OF c(2), of sample_conn 65536]
    by (simp add: s d i)
  then have b:
    "map qs_id (tree (streams (snd (ngx_quic_create_client_stream 65536 sample_conn 10))))
       = [2, 6, 10]"
    "accepted (snd (ngx_quic_create_client_stream 65536 sample_conn 10)) = [2, 6]"
    "client_streams (snd (ngx_quic_create_client_stream 65536 sample_conn 10)) 10 = 3"
    by auto
  show ?thesis using c d s a b by simp
qed

section \<open>Verification: flow control credits\<close>

lemma find_stream_update:
  assumes "\<And>qs. qs_id (g qs) = qs_id qs"
  shows "ngx_quic_find_stream (stream_update fid g t) fid
         = map_option g (ngx_quic_find_stream t fid)"
  using assms by (induction t) (simp_all add: ngx_quic_find_stream_def)

lemmas stream_eval = ngx_quic_create_client_stream_def ngx_quic_create_client_stream_loop.simps
  ngx_quic_create_stream_def NGX_QUIC_STREAM_UNIDIRECTIONAL_def
  NGX_QUIC_STREAM_SERVER_INITIATED_def ngx_quic_find_stream_def Let_def




section \<open>Verification: connection identifiers of the client\<close>

lemma strncmp_zero_refl: "strncmp_zero xs xs n"
  by (induction n arbitrary: xs) (simp_all add: Let_def)


lemma retire_connection_id_tp [simp]:
  "tp (snd (ngx_quic_retire_connection_id qc lvl n)) = tp qc"
  by (simp add: ngx_quic_retire_connection_id_def ngx_quic_alloc_frame_def ngx_alloc_def
      ngx_quic_queue_frame_def ctx_update_def Let_def split: prod.splits bool.splits)

lemma retire_connection_id_ok:
  assumes "0 < mem qc"
  shows "\<exists>qc1. ngx_quic_retire_connection_id qc lvl n = (NGX_OK, qc1)
           \<and> mem qc - 1 \<le> mem qc1 \<and> nclient_ids qc1 = nclient_ids qc
           \<and> client_ids qc1 = client_ids qc"
  using assms
  by (simp add: ngx_quic_retire_connection_id_def ngx_quic_alloc_frame_def ngx_alloc_def
      ngx_quic_queue_frame_def ctx_update_def Let_def)

lemma retire_loop_tp [simp]:
  "tp (snd (ngx_quic_new_connection_id_retire_loop lvl r kept rest qc)) = tp qc"
proof (induction rest arbitrary: kept qc)
  case Nil
  then show ?case by simp
next
  case (Cons cid rest)
  show ?case
  proof (cases "cid_seqnum cid \<ge> r")
    case True
    then show ?thesis using Cons.IH by simp
  next
    case False
    obtain rc qc1 where e: "ngx_quic_retire_connection_id qc lvl (cid_seqnum cid) = (rc, qc1)"
      by (cases "ngx_quic_retire_connection_id qc lvl (cid_seqnum cid)")
    have t: "tp qc1 = tp qc" using retire_connection_id_tp[of qc lvl "cid_seqnum cid"] e by simp
    show ?thesis using False e t Cons.IH by (cases rc) simp_all
  qed
qed

lemma retire_loop_ok:
  assumes "length rest \<le> mem qc"
  shows "fst (ngx_quic_new_connection_id_retire_loop lvl r kept rest qc) = NGX_OK"
  using assms
proof (induction rest arbitrary: kept qc)
  case Nil
  then show ?case by simp
next
  case (Cons cid rest)
  show ?case
  proof (cases "cid_seqnum cid \<ge> r")
    case True
    then show ?thesis using Cons.IH[of qc] Cons.prems by simp
  next
    case False
    have m: "0 < mem qc" using Cons.prems by simp
    obtain qc1 where e: "ngx_quic_retire_connection_id qc lvl (cid_seqnum cid) = (NGX_OK, qc1)"
      and m1: "mem qc - 1 \<le> mem qc1"
      using retire_connection_id_ok[OF m] by blast
    have "length rest \<le> mem qc1" using Cons.prems m1 by simp
    then show ?thesis using False e Cons.IH by simp
  qed
qed

lemma new_connection_id_retire_tp [simp]:
  "tp (snd (ngx_quic_new_connection_id_retire qc lvl f)) = tp qc"
  by (simp add: ngx_quic_new_connection_id_retire_def)

lemma new_connection_id_retire_ok:
  "length (client_ids qc) \<le> mem qc
   \<Longrightarrow> fst (ngx_quic_new_connection_id_retire qc lvl f) = NGX_OK"
  by (simp add: ngx_quic_new_connection_id_retire_def retire_loop_ok)

lemma new_connection_id_add_tp [simp]:
  "tp (snd (ngx_quic_new_connection_id_add qc lvl f)) = tp qc"
  by (simp add: ngx_quic_new_connection_id_add_def ngx_quic_alloc_connection_id_def
      ngx_alloc_def Let_def split: option.splits prod.splits bool.splits)

lemma new_connection_id_add_ok:
  assumes c: "cid_frame_consistent qc f" and m: "0 < mem qc"
  shows "\<exists>qc1. ngx_quic_new_connection_id_add qc lvl f = (NGX_OK, qc1)
           \<and> mem qc - 1 \<le> mem qc1 \<and> length (client_ids qc1) \<le> length (client_ids qc) + 1"
proof (cases "nc_seqnum f < max_retired_seqnum qc")
  case True
  then show ?thesis using retire_connection_id_ok[OF m, of lvl "nc_seqnum f"]
    by (auto simp: ngx_quic_new_connection_id_add_def)
next
  case False
  show ?thesis
  proof (cases "find (\<lambda>item. cid_seqnum item = nc_seqnum f) (client_ids qc)")
    case None
    then show ?thesis using False m
      by (simp add: ngx_quic_new_connection_id_add_def ngx_quic_alloc_connection_id_def
          ngx_alloc_def Let_def)
  next
    case (Some cid)
    then have "cid_id cid = nc_cid f" "cid_sr_token cid = nc_srt f"
      using c by (simp_all add: cid_frame_consistent_def)
    then show ?thesis using False Some
      by (simp add: ngx_quic_new_connection_id_add_def strncmp_zero_refl)
  qed
qed




section \<open>Verification: stateless reset\<close>

text \<open>
  Claim C4, the case it misses: in answer to a packet of 30 bytes the reset has 29 bytes,
  fewer than 43.
\<close>

theorem C4_counterexample:
  "map_option length
     (snd (ngx_quic_send_stateless_reset (Some 7) (Some (\<lambda>i. 0xAB)) sr_token [1, 2, 3]
             (sr_pkt 30))) = Some 29"
  by (simp add: ngx_quic_send_stateless_reset_def sr_pkt_def sr_token_def
      NGX_QUIC_MIN_PKT_LEN_def NGX_QUIC_MIN_SR_PACKET_def NGX_QUIC_MAX_SR_PACKET_def
      NGX_QUIC_SR_TOKEN_LEN_def Let_def)

lemma stateless_reset_shape:
  assumes "ngx_quic_send_stateless_reset rndbytes rand_buf new_sr_token key pkt = (rc, Some dgram)"
  shows "rc = NGX_DECLINED \<and> key \<noteq> [] \<and> 21 < pkt_len pkt
       \<and> (\<exists>token. new_sr_token (pkt_dcid pkt) key = Some token
             \<and> drop (length dgram - 16) dgram = map token [0..<16])
       \<and> hd dgram AND 0xC0 = 0x40
       \<and> (if pkt_len pkt \<le> 43 then length dgram = pkt_len pkt - 1
           else 43 \<le> length dgram \<and> length dgram \<le> min 1200 (3 * pkt_len pkt))
       \<and> (\<exists>rb. rand_buf = Some rb
             \<and> take (length dgram - 16) dgram
                 = ((rb 0 AND NOT 0x80) OR 0x40) # map rb [1..<length dgram - 16])
       \<and> (43 < pkt_len pkt
           \<longrightarrow> (\<exists>r. rndbytes = Some r
                  \<and> length dgram
                      = unat r mod (min 1200 (3 * pkt_len pkt) - 43 + 1) + 43))"
proof -
  have k: "key \<noteq> []" and p: "21 < pkt_len pkt"
    using assms
    by (auto simp: ngx_quic_send_stateless_reset_def NGX_QUIC_MIN_PKT_LEN_def split: if_splits)
  define len where "len = (if pkt_len pkt \<le> 43 then pkt_len pkt - 1
     else unat (the rndbytes) mod (min 1200 (pkt_len pkt * 3) - 43 + 1) + 43)"
  obtain rb token where rb: "rand_buf = Some rb"
    and tk: "new_sr_token (pkt_dcid pkt) key = Some token"
    and rc: "rc = NGX_DECLINED"
    and rn: "43 < pkt_len pkt \<longrightarrow> rndbytes \<noteq> None"
    and d: "dgram = ((map rb [0..<len - 16])[0 := (map rb [0..<len - 16] ! 0) AND NOT 0x80])
                      [0 := (((map rb [0..<len - 16])[0 := (map rb [0..<len - 16] ! 0) AND NOT 0x80]) ! 0)
                            OR 0x40]
                    @ map token [0..<16]"
    using assms k p
    by (auto simp: ngx_quic_send_stateless_reset_def NGX_QUIC_MIN_PKT_LEN_def
        NGX_QUIC_MIN_SR_PACKET_def NGX_QUIC_MAX_SR_PACKET_def NGX_QUIC_SR_TOKEN_LEN_def
        NGX_QUIC_PKT_LONG_def NGX_QUIC_PKT_FIXED_BIT_def Let_def len_def
        split: if_splits option.splits)
  have l: "21 \<le> len" using p by (auto simp: len_def)
  have ln: "length dgram = len" using l by (simp add: d)
  have bound: "if pkt_len pkt \<le> 43 then len = pkt_len pkt - 1
               else 43 \<le> len \<and> len \<le> min 1200 (3 * pkt_len pkt)"
  proof (cases "pkt_len pkt \<le> 43")
    case True
    then show ?thesis by (simp add: len_def)
  next
    case False
    define mx where "mx = min 1200 (pkt_len pkt * 3)"
    have m: "43 \<le> mx" using False by (simp add: mx_def)
    have "unat (the rndbytes) mod Suc (mx - 43) \<le> mx - 43" by (rule mod_Suc_le_divisor)
    then have "unat (the rndbytes) mod Suc (mx - 43) + 43 \<le> mx" using m by linarith
    then have "unat (the rndbytes) mod (mx - 43 + 1) + 43 \<le> mx" by simp
    then show ?thesis using False by (simp add: len_def mx_def mult.commute)
  qed
  have tl: "drop (length dgram - 16) dgram = map token [0..<16]"
    unfolding ln using l by (simp add: d)
  have "hd dgram = (rb 0 AND NOT 0x80) OR 0x40"
    using l by (simp add: d hd_append hd_conv_nth upt_conv_Cons)
  moreover have "((x :: u8) AND NOT 0x80 OR 0x40) AND 0xC0 = 0x40" for x
  proof -
    have c: "NOT 0x80 AND 0xC0 = (0x40 :: u8)" "(0x40 :: u8) AND 0xC0 = 0x40" by simp_all
    have "((x AND NOT 0x80) OR 0x40) AND 0xC0 = ((x AND NOT 0x80) AND 0xC0) OR (0x40 AND 0xC0)"
      by (simp only: bit.conj_disj_distrib2)
    also have "(x AND NOT 0x80) AND 0xC0 = x AND (NOT 0x80 AND 0xC0)"
      by (simp only: and.assoc)
    also have "x AND (NOT 0x80 AND 0xC0) OR (0x40 AND 0xC0) = (x AND 0x40) OR 0x40"
      by (simp only: c)
    also have "\<dots> = 0x40" by (rule word_ao_absorbs(4))
    finally show ?thesis .
  qed
  ultimately have h: "hd dgram AND 0xC0 = 0x40" by simp
  have u: "[0..<len - 16] = 0 # [1..<len - 16]" using l by (simp add: upt_conv_Cons)
  define prefix where "prefix = ((rb 0 AND NOT 0x80) OR 0x40) # map rb [1..<len - 16]"
  have dp: "dgram = prefix @ map token [0..<16]" unfolding d u prefix_def by simp
  have lp: "length prefix = len - 16" using l by (simp add: prefix_def)
  have "take (len - 16) dgram = prefix" unfolding dp lp[symmetric] by simp
  then have "take (len - 16) dgram = ((rb 0 AND NOT 0x80) OR 0x40) # map rb [1..<len - 16]"
    unfolding prefix_def .
  then have pre: "\<exists>rb. rand_buf = Some rb
             \<and> take (length dgram - 16) dgram
                 = ((rb 0 AND NOT 0x80) OR 0x40) # map rb [1..<length dgram - 16]"
    unfolding ln using rb by simp
  have ex: "43 < pkt_len pkt
           \<longrightarrow> (\<exists>r. rndbytes = Some r
                  \<and> length dgram
                      = unat r mod (min 1200 (3 * pkt_len pkt) - 43 + 1) + 43)"
    unfolding ln using rn by (auto simp: len_def mult.commute)
  have main: "rc = NGX_DECLINED \<and> key \<noteq> [] \<and> 21 < pkt_len pkt
       \<and> (\<exists>token. new_sr_token (pkt_dcid pkt) key = Some token
             \<and> drop (length dgram - 16) dgram = map token [0..<16])
       \<and> hd dgram AND 0xC0 = 0x40
       \<and> (if pkt_len pkt \<le> 43 then length dgram = pkt_len pkt - 1
           else 43 \<le> length dgram \<and> length dgram \<le> min 1200 (3 * pkt_len pkt))"
    using rc k p tk tl h bound ln by (auto split: if_splits)
  show ?thesis using main pre ex by blast
qed


lemma stateless_reset_sent:
  assumes "key \<noteq> []" and "21 < pkt_len pkt" and "43 < pkt_len pkt \<longrightarrow> rndbytes \<noteq> None"
    and "rand_buf \<noteq> None" and "new_sr_token (pkt_dcid pkt) key \<noteq> None"
  shows "\<exists>dgram. ngx_quic_send_stateless_reset rndbytes rand_buf new_sr_token key pkt
                 = (NGX_DECLINED, Some dgram)"
  using assms
  by (auto simp: ngx_quic_send_stateless_reset_def NGX_QUIC_MIN_PKT_LEN_def
      NGX_QUIC_MIN_SR_PACKET_def Let_def)

text \<open>
  Claim C4, as the code has it. A reset is sent when the key is not empty, the packet has
  more than 21 bytes and the random generator and the token derivation succeed. Whenever
  a reset is sent, the result is \<^verbatim>\<open>NGX_DECLINED\<close>, the key is not empty and the packet has
  more than 21 bytes; the datagram ends with the 16 bytes of the token derived from the
  \<open>dcid\<close> of the packet and the key, and its first byte has the long header bit clear and
  the fixed bit set. All that precedes the token is the output of the random generator,
  byte by byte, but for these two bits of the first byte. For a packet of more than 43
  bytes the length of the datagram is drawn from the generator too: it is 43 plus the
  16-bit random number modulo the count of lengths from 43 to the smaller of 1200 and
  three times the length of the packet, so it lies between these bounds; for a packet of
  22 to 43 bytes it is one less than the length of the packet.
\<close>

theorem C4_stateless_reset:
  "(key \<noteq> [] \<and> 21 < pkt_len pkt \<and> (43 < pkt_len pkt \<longrightarrow> rndbytes \<noteq> None)
      \<and> rand_buf \<noteq> None \<and> new_sr_token (pkt_dcid pkt) key \<noteq> None
    \<longrightarrow> (\<exists>dgram. ngx_quic_send_stateless_reset rndbytes rand_buf new_sr_token key pkt
                   = (NGX_DECLINED, Some dgram)))
   \<and> (ngx_quic_send_stateless_reset rndbytes rand_buf new_sr_token key pkt = (rc, Some dgram)
    \<longrightarrow> rc = NGX_DECLINED \<and> key \<noteq> [] \<and> 21 < pkt_len pkt
       \<and> (\<exists>token. new_sr_token (pkt_dcid pkt) key = Some token
             \<and> drop (length dgram - 16) dgram = map token [0..<16])
       \<and> hd dgram AND 0xC0 = 0x40
       \<and> (if pkt_len pkt \<le> 43 then length dgram = pkt_len pkt - 1
           else 43 \<le> length dgram \<and> length dgram \<le> min 1200 (3 * pkt_len pkt))
       \<and> (\<exists>rb. rand_buf = Some rb
             \<and> take (length dgram - 16) dgram
                 = ((rb 0 AND NOT 0x80) OR 0x40) # map rb [1..<length dgram - 16])
       \<and> (43 < pkt_len pkt
           \<longrightarrow> (\<exists>r. rndbytes = Some r
                  \<and> length dgram
                      = unat r mod (min 1200 (3 * pkt_len pkt) - 43 + 1) + 43)))"
  using stateless_reset_sent[of key pkt rndbytes rand_buf new_sr_token]
    stateless_reset_shape[of rndbytes rand_buf new_sr_token key pkt rc dgram]
  by blast

theorem C4_stateless_reset_witness:
  "fst (ngx_quic_send_stateless_reset (Some 7) (Some (\<lambda>i. 0xAB)) sr_token [1, 2, 3] (sr_pkt 100))
     = NGX_DECLINED
   \<and> map_option length
        (snd (ngx_quic_send_stateless_reset (Some 7) (Some (\<lambda>i. 0xAB)) sr_token [1, 2, 3]
               (sr_pkt 100))) = Some 50
   \<and> map_option (drop 34)
        (snd (ngx_quic_send_stateless_reset (Some 7) (Some (\<lambda>i. 0xAB)) sr_token [1, 2, 3]
               (sr_pkt 100)))
       = map_option (\<lambda>token. map token [0..<16]) (sr_token (pkt_dcid (sr_pkt 100)) [1, 2, 3])
   \<and> map_option (\<lambda>d. hd d AND 0xC0)
        (snd (ngx_quic_send_stateless_reset (Some 7) (Some (\<lambda>i. 0xAB)) sr_token [1, 2, 3]
               (sr_pkt 100))) = Some 0x40
   \<and> map_option (take 34)
        (snd (ngx_quic_send_stateless_reset (Some 7) (Some (\<lambda>i. 0xAB)) sr_token [1, 2, 3]
               (sr_pkt 100))) = Some (0x6B # map (\<lambda>i. 0xAB) [1..<34])"
proof -
  define R where "R = ngx_quic_send_stateless_reset (Some 7) (Some (\<lambda>i. 0xAB)) sr_token
                        [1, 2, 3] (sr_pkt 100)"
  have h: "pkt_len (sr_pkt 100) = 100" "sr_token (pkt_dcid (sr_pkt 100)) [1, 2, 3] \<noteq> None"
    by (simp_all add: sr_pkt_def sr_token_def)
  have "\<exists>dgram. R = (NGX_DECLINED, Some dgram)"
    unfolding R_def
    using C4_stateless_reset [of "[1, 2, 3]" "sr_pkt 100" "Some 7" "Some (\<lambda>i. 0xAB)" sr_token]
      h by simp
  then obtain dgram where r: "R = (NGX_DECLINED, Some dgram)" by blast
  have w: "(\<exists>token. sr_token (pkt_dcid (sr_pkt 100)) [1, 2, 3] = Some token
             \<and> drop (length dgram - 16) dgram = map token [0..<16])
        \<and> hd dgram AND 0xC0 = 0x40
        \<and> (\<exists>rb. Some (\<lambda>i. 0xAB) = Some rb
             \<and> take (length dgram - 16) dgram
                 = ((rb 0 AND NOT 0x80) OR 0x40) # map rb [1..<length dgram - 16])
        \<and> (43 < pkt_len (sr_pkt 100)
           \<longrightarrow> (\<exists>r. Some (7 :: u16) = Some r
                  \<and> length dgram
                      = unat r mod (min 1200 (3 * pkt_len (sr_pkt 100)) - 43 + 1) + 43))"
    using C4_stateless_reset [of "[1, 2, 3]" "sr_pkt 100" "Some 7" "Some (\<lambda>i. 0xAB)" sr_token
        NGX_DECLINED dgram] r
    unfolding R_def by blast
  have l: "length dgram = 50" using w h(1) by simp
  have t: "take 34 dgram = 0x6B # map (\<lambda>i. 0xAB) [1..<34]" using w l by simp
  show ?thesis unfolding R_def[symmetric] r using w l t by auto
qed

section \<open>Verification: the CRYPTO reassembly buffer\<close>


lemma buffer_insert_split:
  "\<exists>a b. ys = a @ b \<and> ngx_quic_buffer_insert dst ys = a @ [dst] @ b"
proof (induction ys)
  case Nil
  then show ?case by simp
next
  case (Cons item before)
  show ?case
  proof (cases "f_offset item < f_offset dst")
    case True
    have "item # before = [] @ (item # before)
          \<and> ngx_quic_buffer_insert dst (item # before) = [] @ [dst] @ (item # before)"
      using True by simp
    then show ?thesis by blast
  next
    case False
    obtain a b where "before = a @ b" "ngx_quic_buffer_insert dst before = a @ [dst] @ b"
      using Cons.IH by blast
    then have "item # before = (item # a) @ b
          \<and> ngx_quic_buffer_insert dst (item # before) = (item # a) @ [dst] @ b"
      using False by simp
    then show ?thesis by blast
  qed
qed

lemma buffer_insert_set [simp]:
  "set (ngx_quic_buffer_insert dst ys) = insert dst (set ys)"
  by (induction ys) auto

lemma buffer_insert_ordered:
  "offset_ordered (rev ys) \<Longrightarrow> offset_ordered (rev (ngx_quic_buffer_insert dst ys))"
proof (induction ys)
  case Nil
  then show ?case by (simp add: offset_ordered_def)
next
  case (Cons item before)
  have s: "offset_ordered (rev before)"
    and le: "\<forall>x\<in>set before. unat (f_offset x) \<le> unat (f_offset item)"
    using Cons.prems by (auto simp: offset_ordered_def sorted_append)
  show ?case
  proof (cases "f_offset item < f_offset dst")
    case True
    then have "unat (f_offset item) \<le> unat (f_offset dst)" by (simp add: word_less_nat_alt)
    then show ?thesis using True Cons.prems le
      by (auto simp: offset_ordered_def sorted_append)
  next
    case False
    then have "unat (f_offset dst) \<le> unat (f_offset item)" by (simp add: word_less_nat_alt)
    then show ?thesis using False Cons.IH[OF s] le
      by (auto simp: offset_ordered_def sorted_append)
  qed
qed

lemma alloc_frame_keeps:
  "error (snd (ngx_quic_alloc_frame qc sz)) = error qc
   \<and> crypto (snd (ngx_quic_alloc_frame qc sz)) = crypto qc"
  by (simp add: ngx_quic_alloc_frame_def ngx_alloc_def split: prod.splits bool.splits)

lemma buffer_frame_result:
  "ngx_quic_buffer_frame qc fs frame
   = (if fst (ngx_quic_alloc_frame qc (unat (f_length frame)))
      then (NGX_OK,
            fs\<lparr>fs_total := fs_total fs + f_length frame,
               fs_frames := rev (ngx_quic_buffer_insert (frame\<lparr>f_data := (f_length frame \<noteq> 0)\<rparr>)
                                   (rev (fs_frames fs)))\<rparr>,
            snd (ngx_quic_alloc_frame qc (unat (f_length frame))))
      else (NGX_ERROR, fs, snd (ngx_quic_alloc_frame qc (unat (f_length frame)))))"
  by (cases "ngx_quic_alloc_frame qc (unat (f_length frame))")
     (simp add: ngx_quic_buffer_frame_def Let_def)

lemma crypto_frame_out_of_order:
  assumes w: "\<not> (fs_received (crypto qc lvl) < f_offset frame + f_length frame
                \<and> NGX_QUIC_MAX_BUFFERED
                    < f_offset frame + f_length frame - fs_received (crypto qc lvl))"
    and o: "fs_received (crypto qc lvl) < f_offset frame"
    and l: "pkt_level pkt = lvl"
  shows "ngx_quic_handle_crypto_frame handler resend qc pkt frame
         = (if fst (ngx_quic_alloc_frame qc (unat (f_length frame)))
            then (NGX_OK,
                  (snd (ngx_quic_alloc_frame qc (unat (f_length frame))))
                    \<lparr>crypto := (crypto qc)(lvl := (crypto qc lvl)
                       \<lparr>fs_total := fs_total (crypto qc lvl) + f_length frame,
                        fs_frames := rev (ngx_quic_buffer_insert
                                            (frame\<lparr>f_data := (f_length frame \<noteq> 0)\<rparr>)
                                            (rev (fs_frames (crypto qc lvl))))\<rparr>)\<rparr>)
            else (NGX_ERROR,
                  (snd (ngx_quic_alloc_frame qc (unat (f_length frame))))
                    \<lparr>crypto := (crypto qc)(lvl := crypto qc lvl)\<rparr>))"
proof -
  have k: "crypto (snd (ngx_quic_alloc_frame qc (unat (f_length frame)))) = crypto qc"
    using alloc_frame_keeps[of qc "unat (f_length frame)"] by simp
  have h: "ngx_quic_handle_ordered_frame handler True qc (crypto qc lvl) frame
        = ngx_quic_buffer_frame qc (crypto qc lvl) frame"
    using o by (simp add: ngx_quic_handle_ordered_frame_def)
  show ?thesis
    unfolding ngx_quic_handle_crypto_frame_def Let_def l if_not_P[OF w] h buffer_frame_result
    using k by simp
qed


lemmas crypto_eval = ngx_quic_handle_crypto_frame_def ngx_quic_handle_ordered_frame_def
  ngx_quic_buffer_frame_def ngx_quic_alloc_frame_def ngx_alloc_def crypto_frame_def
  crypto_pkt_def accept_all_def no_resend_def f_offset_def f_length_def zero_frame_def
  NGX_QUIC_MAX_BUFFERED_def NGX_QUIC_ERR_CRYPTO_BUFFER_EXCEEDED_def Let_def





end
